theory Spec2Isabelle
  imports Main "HOL-Library.AList"
begin

section \<open>Data model\<close>

text \<open>
  The solver of \<^verbatim>\<open>src/App.tsx\<close>: slot extraction (\<^verbatim>\<open>computeSlots\<close>),
  crossing constraints (\<^verbatim>\<open>buildCrosses\<close>), the backtracking engine
  (\<^verbatim>\<open>solveJS\<close>), engine selection (\<^verbatim>\<open>solveFor\<close>) and the projection of
  a mapping onto the grid (\<^verbatim>\<open>onSolve\<close>).

  Strings are lists of characters. \<^verbatim>\<open>toUpperCase\<close> is a function of the runtime
  and a parameter here.

  Reading a property of \<^verbatim>\<open>undefined\<close> raises a \<^verbatim>\<open>TypeError\<close> in the source;
  the rejection of the promise returned by \<^verbatim>\<open>session.consult\<close> is
  \<^verbatim>\<open>EngineError\<close>.
\<close>

datatype error = TypeError | EngineError

text \<open>\<^verbatim>\<open>type Cell = { blocked: boolean; ch?: string }\<close>\<close>

record cell =
  blocked :: bool
  ch :: "string option"

type_synonym grid = "cell list list"

datatype dir = H | V

text \<open>
  \<^verbatim>\<open>type Slot = { id; r; c; len; dir }\<close>. The fields carry the prefix \<open>s\<close>:
  \<open>id\<close> is a constant of HOL, and \<open>r\<close> and \<open>c\<close> are wanted as variables.
\<close>

record slot =
  sid :: nat
  sr :: nat
  sc :: nat
  slen :: nat
  sdir :: dir

text \<open>\<^verbatim>\<open>type Mapping = Record<number, string>\<close>\<close>

type_synonym mapping = "nat \<rightharpoonup> string"

section \<open>Slot extraction\<close>

text \<open>
  \<^verbatim>\<open>g[r][c]\<close> followed by a property access: a \<^verbatim>\<open>TypeError\<close> when the row
  or the cell is missing.
\<close>

definition cellAt :: "grid \<Rightarrow> nat \<Rightarrow> nat \<Rightarrow> error + cell" where
  "cellAt g r c =
     (if r < length g \<and> c < length (g ! r) then Inr (g ! r ! c) else Inl TypeError)"

text \<open>
  The two scans of \<^verbatim>\<open>computeSlots\<close> are the same loop with the roles of \<open>r\<close> and
  \<open>c\<close> exchanged. The loop is written once, over an accessor \<open>get\<close> for the cell at a
  position of the current line, the bound \<open>n\<close> of the line, and the constructor \<open>mk\<close>
  of the slot pushed for a run.

  \<^verbatim>\<open>while (c < n && get(c).blocked) c++;\<close>
\<close>

function skipBlocked :: "(nat \<Rightarrow> error + cell) \<Rightarrow> nat \<Rightarrow> nat \<Rightarrow> error + nat" where
  "skipBlocked get n c =
     (if c < n then
        (case get c of
           Inl e \<Rightarrow> Inl e
         | Inr x \<Rightarrow> if blocked x then skipBlocked get n (c + 1) else Inr c)
      else Inr c)"
  by pat_completeness auto
termination
  by (relation "measure (\<lambda>(get, n, c). n - c)") auto

text \<open>\<^verbatim>\<open>while (c < n && !get(c).blocked) c++;\<close>\<close>

function skipOpen :: "(nat \<Rightarrow> error + cell) \<Rightarrow> nat \<Rightarrow> nat \<Rightarrow> error + nat" where
  "skipOpen get n c =
     (if c < n then
        (case get c of
           Inl e \<Rightarrow> Inl e
         | Inr x \<Rightarrow> if \<not> blocked x then skipOpen get n (c + 1) else Inr c)
      else Inr c)"
  by pat_completeness auto
termination
  by (relation "measure (\<lambda>(get, n, c). n - c)") auto

lemma skipBlocked_ge: "skipBlocked get n c = Inr k \<Longrightarrow> c \<le> k"
proof (induction get n c rule: skipBlocked.induct)
  case (1 get n c)
  show ?case
  proof (cases "c < n")
    case True
    with "1.prems" obtain x where x: "get c = Inr x"
      by (cases "get c") (auto simp: skipBlocked.simps [of get n c])
    show ?thesis
    proof (cases "blocked x")
      case True
      with \<open>c < n\<close> x "1.prems" have "skipBlocked get n (c + 1) = Inr k"
        by (simp add: skipBlocked.simps [of get n c])
      with "1.IH" [OF \<open>c < n\<close> x True] show ?thesis by simp
    next
      case False
      with \<open>c < n\<close> x "1.prems" show ?thesis
        by (simp add: skipBlocked.simps [of get n c])
    qed
  next
    case False
    with "1.prems" show ?thesis by (simp add: skipBlocked.simps [of get n c])
  qed
qed

lemma skipBlocked_stop:
  "skipBlocked get n c = Inr k \<Longrightarrow> k < n \<Longrightarrow> \<exists>x. get k = Inr x \<and> \<not> blocked x"
proof (induction get n c rule: skipBlocked.induct)
  case (1 get n c)
  show ?case
  proof (cases "c < n")
    case True
    with "1.prems" obtain x where x: "get c = Inr x"
      by (cases "get c") (auto simp: skipBlocked.simps [of get n c])
    show ?thesis
    proof (cases "blocked x")
      case True
      with \<open>c < n\<close> x "1.prems" have "skipBlocked get n (c + 1) = Inr k"
        by (simp add: skipBlocked.simps [of get n c])
      with "1.IH" [OF \<open>c < n\<close> x True] "1.prems" show ?thesis by simp
    next
      case False
      with \<open>c < n\<close> x "1.prems" show ?thesis
        by (simp add: skipBlocked.simps [of get n c])
    qed
  next
    case False
    with "1.prems" show ?thesis by (simp add: skipBlocked.simps [of get n c])
  qed
qed

lemma skipOpen_ge: "skipOpen get n c = Inr k \<Longrightarrow> c \<le> k"
proof (induction get n c rule: skipOpen.induct)
  case (1 get n c)
  show ?case
  proof (cases "c < n")
    case True
    with "1.prems" obtain x where x: "get c = Inr x"
      by (cases "get c") (auto simp: skipOpen.simps [of get n c])
    show ?thesis
    proof (cases "blocked x")
      case False
      with \<open>c < n\<close> x "1.prems" have "skipOpen get n (c + 1) = Inr k"
        by (simp add: skipOpen.simps [of get n c])
      with "1.IH" [OF \<open>c < n\<close> x False] show ?thesis by simp
    next
      case True
      with \<open>c < n\<close> x "1.prems" show ?thesis
        by (simp add: skipOpen.simps [of get n c])
    qed
  next
    case False
    with "1.prems" show ?thesis by (simp add: skipOpen.simps [of get n c])
  qed
qed

lemma skipOpen_gt:
  "skipOpen get n c = Inr k \<Longrightarrow> c < n \<Longrightarrow> get c = Inr x \<Longrightarrow> \<not> blocked x \<Longrightarrow> c < k"
  using skipOpen_ge [of get n "c + 1" k]
  by (simp add: skipOpen.simps [of get n c])

text \<open>
  The body of a scan: skip the blocked cells, then the open ones, and push a slot when
  the run has two cells or more. The state is the pair of \<^verbatim>\<open>slots\<close> and the counter
  \<^verbatim>\<open>id\<close>.
\<close>

function scanLine ::
  "(nat \<Rightarrow> error + cell) \<Rightarrow> nat \<Rightarrow> (nat \<Rightarrow> nat \<Rightarrow> nat \<Rightarrow> slot) \<Rightarrow> nat \<Rightarrow>
     slot list \<times> nat \<Rightarrow> error + slot list \<times> nat" where
  "scanLine get n mk c st =
     (if c < n then
        (case skipBlocked get n c of
           Inl e \<Rightarrow> Inl e
         | Inr start \<Rightarrow>
             (case skipOpen get n start of
                Inl e \<Rightarrow> Inl e
              | Inr c' \<Rightarrow>
                  scanLine get n mk c'
                    (if 2 \<le> c' - start
                     then (fst st @ [mk (snd st) start (c' - start)], snd st + 1)
                     else st)))
      else Inr st)"
  by pat_completeness auto
termination
proof (relation "measure (\<lambda>(get, n, mk, c, st). n - c)", goal_cases)
  case 1
  show ?case by simp
next
  case (2 get n mk c st start c')
  have "c \<le> start" using 2(2) by (rule skipBlocked_ge)
  have "start \<le> c'" using 2(3) by (rule skipOpen_ge)
  have "c < c'"
  proof (cases "start < n")
    case True
    from skipBlocked_stop [OF 2(2) True] obtain x where "get start = Inr x" "\<not> blocked x"
      by blast
    from skipOpen_gt [OF 2(3) True this] \<open>c \<le> start\<close> show ?thesis by simp
  next
    case False
    with \<open>start \<le> c'\<close> 2(1) show ?thesis by simp
  qed
  with 2(1) show ?case by simp
qed

declare skipBlocked.simps [simp del] skipOpen.simps [simp del] scanLine.simps [simp del]

text \<open>
  \<^verbatim>\<open>for (let r = 0; r < g.length; r++) { let c = 0; while (c < g[0].length) ... }\<close>
  pushing \<^verbatim>\<open>{ id: id++, r, c: start, len, dir: "H" }\<close>.
\<close>

definition mkH :: "nat \<Rightarrow> nat \<Rightarrow> nat \<Rightarrow> nat \<Rightarrow> slot" where
  "mkH r i start n = \<lparr>sid = i, sr = r, sc = start, slen = n, sdir = H\<rparr>"

definition mkV :: "nat \<Rightarrow> nat \<Rightarrow> nat \<Rightarrow> nat \<Rightarrow> slot" where
  "mkV c i start n = \<lparr>sid = i, sr = start, sc = c, slen = n, sdir = V\<rparr>"

function hRows :: "grid \<Rightarrow> nat \<Rightarrow> slot list \<times> nat \<Rightarrow> error + slot list \<times> nat" where
  "hRows g r st =
     (if r < length g then
        (case scanLine (cellAt g r) (length (g ! 0)) (mkH r) 0 st of
           Inl e \<Rightarrow> Inl e
         | Inr st' \<Rightarrow> hRows g (r + 1) st')
      else Inr st)"
  by pat_completeness auto
termination
  by (relation "measure (\<lambda>(g, r, st). length g - r)") auto

text \<open>
  \<^verbatim>\<open>for (let c = 0; c < g[0].length; c++) { let r = 0; while (r < g.length) ... }\<close>
  pushing \<^verbatim>\<open>{ id: id++, r: start, c, len, dir: "V" }\<close>. The loop condition reads
  \<^verbatim>\<open>g[0].length\<close> before anything else: on a grid with no row it raises.
\<close>

function vCols :: "grid \<Rightarrow> nat \<Rightarrow> slot list \<times> nat \<Rightarrow> error + slot list \<times> nat" where
  "vCols g c st =
     (case g of
        [] \<Rightarrow> Inl TypeError
      | row0 # _ \<Rightarrow>
          if c < length row0 then
            (case scanLine (\<lambda>r. cellAt g r c) (length g) (mkV c) 0 st of
               Inl e \<Rightarrow> Inl e
             | Inr st' \<Rightarrow> vCols g (c + 1) st')
          else Inr st)"
  by pat_completeness auto
termination
  by (relation "measure (\<lambda>(g, c, st). length (hd g) - c)") auto

declare hRows.simps [simp del] vCols.simps [simp del]

definition computeSlots :: "grid \<Rightarrow> error + slot list" where
  "computeSlots g =
     (case hRows g 0 ([], 0) of
        Inl e \<Rightarrow> Inl e
      | Inr st \<Rightarrow>
          (case vCols g 0 st of
             Inl e \<Rightarrow> Inl e
           | Inr st' \<Rightarrow> Inr (fst st')))"

section \<open>Crossing constraints\<close>

text \<open>The entries \<^verbatim>\<open>{ a, ia, b, ib }\<close> of \<^verbatim>\<open>crosses\<close>, prefixed with \<open>c\<close>.\<close>

record cross =
  ca :: nat
  cia :: nat
  cb :: nat
  cib :: nat

text \<open>The entries \<^verbatim>\<open>{ slotId, off }\<close> of the arrays held by \<^verbatim>\<open>mark\<close>.\<close>

record mark =
  slotId :: nat
  off :: nat

text \<open>
  \<^verbatim>\<open>mark\<close> is a \<^verbatim>\<open>Map\<close> from the key \<^verbatim>\<open>`${r},${c}`\<close> to an array; a
  \<^verbatim>\<open>Map\<close> iterates in the order its keys were first set. It is an association list
  in that order. The key is the pair of the two numbers: their decimal rendering around
  a comma determines them.
\<close>

type_synonym marks = "((nat \<times> nat) \<times> mark list) list"

text \<open>
  \<^verbatim>\<open>rr = s.dir === "H" ? s.r : s.r + k\<close> and
  \<^verbatim>\<open>cc = s.dir === "H" ? s.c + k : s.c\<close>
\<close>

definition cellOf :: "slot \<Rightarrow> nat \<Rightarrow> nat \<times> nat" where
  "cellOf s k = (if sdir s = H then (sr s, sc s + k) else (sr s + k, sc s))"

text \<open>
  \<^verbatim>\<open>const arr = mark.get(key) ?? []; arr.push(e); mark.set(key, arr);\<close>
\<close>

definition pushMark :: "nat \<times> nat \<Rightarrow> mark \<Rightarrow> marks \<Rightarrow> marks" where
  "pushMark key e m =
     AList.update key ((case map_of m key of None \<Rightarrow> [] | Some arr \<Rightarrow> arr) @ [e]) m"

definition markSlot :: "slot \<Rightarrow> marks \<Rightarrow> marks" where
  "markSlot s m =
     fold (\<lambda>k. pushMark (cellOf s k) \<lparr>slotId = sid s, off = k\<rparr>) [0..<slen s] m"

definition markAll :: "slot list \<Rightarrow> marks" where
  "markAll ss = fold markSlot ss []"

definition mkCross :: "mark \<Rightarrow> mark \<Rightarrow> cross" where
  "mkCross x y = \<lparr>ca = slotId x, cia = off x, cb = slotId y, cib = off y\<rparr>"

text \<open>
  \<^verbatim>\<open>for (i = 0; i < arr.length; i++) for (j = i + 1; j < arr.length; j++) crosses.push(...)\<close>
\<close>

definition pairsOf :: "mark list \<Rightarrow> cross list" where
  "pairsOf arr =
     concat (map (\<lambda>i. map (\<lambda>j. mkCross (arr ! i) (arr ! j)) [i + 1..<length arr])
       [0..<length arr])"

definition buildCrosses :: "slot list \<Rightarrow> cross list" where
  "buildCrosses ss =
     concat (map (\<lambda>(key, arr). if length arr < 2 then [] else pairsOf arr) (markAll ss))"

section \<open>The backtracking engine\<close>

text \<open>
  \<^verbatim>\<open>String.prototype.toUpperCase\<close> belongs to the runtime and follows the case
  mapping of Unicode, which is not a table of this program and does not map character by
  character (sharp s becomes \<^verbatim>\<open>SS\<close>). The functions that call it take it as their
  first argument, \<open>up\<close>, and nothing is assumed about it.
\<close>

text \<open>The character class \<^verbatim>\<open>[A-Z]\<close>.\<close>

definition isAZ :: "char \<Rightarrow> bool" where
  "isAZ x = (let n = (of_char x :: nat) in 65 \<le> n \<and> n \<le> 90)"

text \<open>\<^verbatim>\<open>w[i]\<close>: a string of one character, or \<^verbatim>\<open>undefined\<close> (\<open>None\<close>).\<close>

definition charAt :: "string \<Rightarrow> nat \<Rightarrow> string option" where
  "charAt w i = (if i < length w then Some [w ! i] else None)"

text \<open>
  The truth value of \<^verbatim>\<open>assignment[id]\<close>: \<^verbatim>\<open>undefined\<close> and the empty string are
  false.
\<close>

definition truthy :: "string option \<Rightarrow> bool" where
  "truthy v = (case v of None \<Rightarrow> False | Some w \<Rightarrow> w \<noteq> [])"

text \<open>
  \<^verbatim>\<open>byLen\<close>:
  \<^verbatim>\<open>const L = w.length; if (!byLen.has(L)) byLen.set(L, []); byLen.get(L)!.push(w);\<close>
\<close>

definition indexWord :: "string \<Rightarrow> (nat \<rightharpoonup> string list) \<Rightarrow> (nat \<rightharpoonup> string list)" where
  "indexWord w m =
     m(length w \<mapsto> (case m (length w) of None \<Rightarrow> [] | Some bucket \<Rightarrow> bucket) @ [w])"

definition indexByLen :: "string list \<Rightarrow> (nat \<rightharpoonup> string list)" where
  "indexByLen wordList = fold indexWord wordList Map.empty"

text \<open>
  \<^verbatim>\<open>fixed\<close>: for each slot the \<^verbatim>\<open>Map\<close> from an offset to the letter the grid
  already holds there:
  \<^verbatim>\<open>const ch = g[rr][cc].ch?.toUpperCase(); if (ch && /[A-Z]/.test(ch)) m.set(k, ch);\<close>
  The offsets are set in increasing order, each once: the inner map is the list of its
  entries.
\<close>

fun fixedLoop ::
  "(string \<Rightarrow> string) \<Rightarrow> grid \<Rightarrow> slot \<Rightarrow> nat list \<Rightarrow> (nat \<times> string) list \<Rightarrow> error + (nat \<times> string) list" where
  "fixedLoop up g s [] m = Inr m"
| "fixedLoop up g s (k # ks) m =
     (case cellAt g (fst (cellOf s k)) (snd (cellOf s k)) of
        Inl e \<Rightarrow> Inl e
      | Inr x \<Rightarrow>
          (case map_option up (ch x) of
             None \<Rightarrow> fixedLoop up g s ks m
           | Some u \<Rightarrow>
               if u \<noteq> [] \<and> list_ex isAZ u then fixedLoop up g s ks (m @ [(k, u)])
               else fixedLoop up g s ks m))"

fun fixedAll ::
  "(string \<Rightarrow> string) \<Rightarrow> grid \<Rightarrow> slot list \<Rightarrow> (nat \<rightharpoonup> (nat \<times> string) list) \<Rightarrow> error + (nat \<rightharpoonup> (nat \<times> string) list)" where
  "fixedAll up g [] fx = Inr fx"
| "fixedAll up g (s # ss) fx =
     (case fixedLoop up g s [0..<slen s] [] of
        Inl e \<Rightarrow> Inl e
      | Inr m \<Rightarrow> fixedAll up g ss (fx(sid s \<mapsto> m)))"

text \<open>The entries \<^verbatim>\<open>{ otherId, idxThis, idxOther }\<close> of \<^verbatim>\<open>crossingMap\<close>.\<close>

record xref =
  otherId :: nat
  idxThis :: nat
  idxOther :: nat

text \<open>\<^verbatim>\<open>for (const s of slots) crossingMap.set(s.id, []);\<close>\<close>

definition initCrossing :: "slot list \<Rightarrow> (nat \<rightharpoonup> xref list)" where
  "initCrossing ss = fold (\<lambda>s m. m(sid s \<mapsto> [])) ss Map.empty"

text \<open>
  \<^verbatim>\<open>crossingMap.get(c.a)!.push(...); crossingMap.get(c.b)!.push(...);\<close> where a
  missing key makes \<^verbatim>\<open>push\<close> raise.
\<close>

fun addCrosses :: "cross list \<Rightarrow> (nat \<rightharpoonup> xref list) \<Rightarrow> error + (nat \<rightharpoonup> xref list)" where
  "addCrosses [] m = Inr m"
| "addCrosses (x # xs) m =
     (case m (ca x) of
        None \<Rightarrow> Inl TypeError
      | Some la \<Rightarrow>
          (let m1 = m(ca x \<mapsto> la @ [\<lparr>otherId = cb x, idxThis = cia x, idxOther = cib x\<rparr>])
           in case m1 (cb x) of
                None \<Rightarrow> Inl TypeError
              | Some lb \<Rightarrow>
                  addCrosses xs
                    (m1(cb x \<mapsto> lb @ [\<lparr>otherId = ca x, idxThis = cib x, idxOther = cia x\<rparr>]))))"

text \<open>
  What the closures \<^verbatim>\<open>domainFor\<close>, \<^verbatim>\<open>pickNext\<close> and \<^verbatim>\<open>backtrack\<close> capture: the
  constants in \<open>env\<close>, the two mutable variables in \<open>state\<close>.
\<close>

record env =
  slots :: "slot list"
  byLen :: "nat \<rightharpoonup> string list"
  fixed :: "nat \<rightharpoonup> (nat \<times> string) list"
  crossingMap :: "nat \<rightharpoonup> xref list"

record state =
  assignment :: mapping
  used :: "string set"

text \<open>
  The callback of the second \<^verbatim>\<open>filter\<close> of \<^verbatim>\<open>domainFor\<close>:
  \<^verbatim>\<open>for (const [i, ch] of fx.entries()) if (w[i] !== ch) return false;\<close>
  \<^verbatim>\<open>for (const x of crossingMap.get(s.id)!) { const other = assignment[x.otherId];\<close>
  \<^verbatim>\<open>  if (other && other[x.idxOther] !== w[x.idxThis]) return false; } return true;\<close>
\<close>

definition crossOk :: "mapping \<Rightarrow> string \<Rightarrow> xref \<Rightarrow> bool" where
  "crossOk asg w x =
     (case asg (otherId x) of
        None \<Rightarrow> True
      | Some other \<Rightarrow> \<not> (other \<noteq> [] \<and> charAt other (idxOther x) \<noteq> charAt w (idxThis x)))"

definition accepts :: "env \<Rightarrow> state \<Rightarrow> slot \<Rightarrow> string \<Rightarrow> error + bool" where
  "accepts env st s w =
     (case fixed env (sid s) of
        None \<Rightarrow> Inl TypeError
      | Some fx \<Rightarrow>
          if list_ex (\<lambda>(i, c). charAt w i \<noteq> Some c) fx then Inr False
          else
            (case crossingMap env (sid s) of
               None \<Rightarrow> Inl TypeError
             | Some xs \<Rightarrow> Inr (list_all (crossOk (assignment st) w) xs)))"

text \<open>\<^verbatim>\<open>Array.prototype.filter\<close> with a callback that may raise.\<close>

fun filterE :: "('a \<Rightarrow> error + bool) \<Rightarrow> 'a list \<Rightarrow> error + 'a list" where
  "filterE p [] = Inr []"
| "filterE p (x # xs) =
     (case p x of
        Inl e \<Rightarrow> Inl e
      | Inr keep \<Rightarrow>
          (case filterE p xs of
             Inl e \<Rightarrow> Inl e
           | Inr ys \<Rightarrow> Inr (if keep then x # ys else ys)))"

definition domainFor :: "env \<Rightarrow> state \<Rightarrow> slot \<Rightarrow> error + string list" where
  "domainFor env st s =
     filterE (accepts env st s)
       (filter (\<lambda>w. w \<notin> used st)
          (case byLen env (slen s) of None \<Rightarrow> [] | Some bucket \<Rightarrow> bucket))"

text \<open>
  The loop of \<^verbatim>\<open>pickNext\<close>, with \<^verbatim>\<open>best\<close> as its accumulator:
  \<^verbatim>\<open>if (assignment[s.id]) continue;\<close>
  \<^verbatim>\<open>if (best === null || size < best.size) best = { s, size };\<close>
  \<^verbatim>\<open>if (size === 0) return s;\<close> and, after the loop, \<^verbatim>\<open>best ? best.s : null\<close>.
\<close>

fun pickLoop :: "env \<Rightarrow> state \<Rightarrow> (slot \<times> nat) option \<Rightarrow> slot list \<Rightarrow> error + slot option" where
  "pickLoop env st best [] = Inr (map_option fst best)"
| "pickLoop env st best (s # ss) =
     (if truthy (assignment st (sid s)) then pickLoop env st best ss
      else
        (case domainFor env st s of
           Inl e \<Rightarrow> Inl e
         | Inr d \<Rightarrow>
             (let size = length d;
                  best' = (case best of
                             None \<Rightarrow> Some (s, size)
                           | Some (b, bsize) \<Rightarrow> if size < bsize then Some (s, size) else best)
              in if size = 0 then Inr (Some s) else pickLoop env st best' ss)))"

definition pickNext :: "env \<Rightarrow> state \<Rightarrow> error + slot option" where
  "pickNext env st = pickLoop env st None (slots env)"

text \<open>
  \<^verbatim>\<open>backtrack\<close> calls itself from inside its \<^verbatim>\<open>for (const w of dom)\<close> loop, and the
  loop goes on in the state the call left behind. The two are one recursive function over
  the point of the program reached: the entry of \<^verbatim>\<open>backtrack\<close>, or the head of the loop
  for the slot \<open>s\<close> with the words \<open>ws\<close> still to try. Not returning is \<open>None\<close>.
\<close>

datatype frame = Backtrack state | ForOf slot "string list" state

definition assign :: "slot \<Rightarrow> string \<Rightarrow> state \<Rightarrow> state" where
  "assign s w st = \<lparr>assignment = (assignment st)(sid s \<mapsto> w), used = insert w (used st)\<rparr>"

definition unassign :: "slot \<Rightarrow> string \<Rightarrow> state \<Rightarrow> state" where
  "unassign s w st = \<lparr>assignment = (assignment st)(sid s := None), used = used st - {w}\<rparr>"

partial_function (option) search :: "env \<Rightarrow> frame \<Rightarrow> (error + bool \<times> state) option" where
  "search env fr =
     (case fr of
        Backtrack st \<Rightarrow>
          (case pickNext env st of
             Inl e \<Rightarrow> Some (Inl e)
           | Inr None \<Rightarrow> Some (Inr (True, st))
           | Inr (Some s) \<Rightarrow>
               (case domainFor env st s of
                  Inl e \<Rightarrow> Some (Inl e)
                | Inr d \<Rightarrow>
                    if length d = 0 then Some (Inr (False, st))
                    else search env (ForOf s d st)))
      | ForOf s [] st \<Rightarrow> Some (Inr (False, st))
      | ForOf s (w # ws) st \<Rightarrow>
          Option.bind (search env (Backtrack (assign s w st)))
            (\<lambda>res. case res of
                      Inl e \<Rightarrow> Some (Inl e)
                    | Inr (ok, st') \<Rightarrow>
                        if ok then Some (Inr (True, st'))
                        else search env (ForOf s ws (unassign s w st'))))"

declare search.simps [code]

definition backtrack :: "env \<Rightarrow> state \<Rightarrow> (error + bool \<times> state) option" where
  "backtrack env st = search env (Backtrack st)"

definition solveJS ::
  "(string \<Rightarrow> string) \<Rightarrow> grid \<Rightarrow> string list \<Rightarrow> (error + mapping option) option" where
  "solveJS up g wordList =
     (case computeSlots g of
        Inl e \<Rightarrow> Some (Inl e)
      | Inr ss \<Rightarrow>
          if length ss = 0 then Some (Inr None)
          else
            (case fixedAll up g ss Map.empty of
               Inl e \<Rightarrow> Some (Inl e)
             | Inr fx \<Rightarrow>
                 (case addCrosses (buildCrosses ss) (initCrossing ss) of
                    Inl e \<Rightarrow> Some (Inl e)
                  | Inr cm \<Rightarrow>
                      (case backtrack
                              \<lparr>slots = ss, byLen = indexByLen wordList, fixed = fx,
                                crossingMap = cm\<rparr>
                              \<lparr>assignment = Map.empty, used = {}\<rparr> of
                         None \<Rightarrow> None
                       | Some (Inl e) \<Rightarrow> Some (Inl e)
                       | Some (Inr (ok, st)) \<Rightarrow>
                           Some (Inr (if ok then Some (assignment st) else None))))))"

section \<open>Engine selection\<close>

text \<open>
  Tau Prolog is loaded from a CDN and is not part of the repository. What
  \<^verbatim>\<open>solveFor\<close> sees of it is which callback it calls: \<^verbatim>\<open>ensureTauProlog\<close> resolves
  to \<^verbatim>\<open>null\<close> (\<open>Unavailable\<close>); \<^verbatim>\<open>session.consult\<close> calls \<^verbatim>\<open>error\<close>, which is
  the \<^verbatim>\<open>reject\<close> of the awaited promise (\<open>ConsultFails\<close>); \<^verbatim>\<open>session.query\<close> calls
  \<^verbatim>\<open>error\<close> (\<open>QueryFails\<close>); or the query succeeds and \<^verbatim>\<open>session.answer\<close> passes
  an answer. The answer is false or \<^verbatim>\<open>null\<close> (\<open>NoAnswer\<close>); or looking up
  \<^verbatim>\<open>Assigns\<close> in it gives nothing, as in the term \<^verbatim>\<open>throw(E)\<close> that answers for an
  error the program has not caught (\<open>NoAssigns\<close>); or it binds \<^verbatim>\<open>Assigns\<close> to the
  list that \<^verbatim>\<open>solve/1\<close> builds (\<open>Assigns\<close>).

  That list is a chain of terms \<^verbatim>\<open>./2\<close>, each with a node \<^verbatim>\<open>assign(Id, W)\<close> and the
  rest of the chain. Of a node \<^verbatim>\<open>solveFor\<close> reads \<^verbatim>\<open>idTerm.id\<close> and
  \<^verbatim>\<open>wordTerm.id\<close>, each a string, or \<^verbatim>\<open>undefined\<close> (\<open>None\<close>) in a term that has no
  such field.
\<close>

type_synonym node = "string option \<times> string option"

datatype answer = NoAnswer | NoAssigns | Assigns "node list"

datatype engine = Unavailable | ConsultFails | QueryFails | Answers answer

text \<open>
  The white space that \<^verbatim>\<open>parseInt\<close> and \<^verbatim>\<open>trim\<close> skip: tab, line feed, vertical
  tab, form feed, carriage return, space and no-break space.
\<close>

definition isSpace :: "char \<Rightarrow> bool" where
  "isSpace x = (let n = (of_char x :: nat) in (9 \<le> n \<and> n \<le> 13) \<or> n = 32 \<or> n = 160)"

text \<open>
  \<^verbatim>\<open>parseInt(idTerm.id)\<close>: the argument as a string (\<^verbatim>\<open>undefined\<close> is the string
  \<^verbatim>\<open>"undefined"\<close>), without the white space it starts with; a sign; \<^verbatim>\<open>0x\<close> or
  \<^verbatim>\<open>0X\<close> for radix 16, else radix 10; then the digits up to the first character that
  is none. Without a digit the result is \<^verbatim>\<open>NaN\<close> (\<open>None\<close>). The result is the number
  the code has as long as it is below 2 to the power 53, where the numbers of JavaScript
  are exact.
\<close>

definition digitOf :: "nat \<Rightarrow> char \<Rightarrow> nat option" where
  "digitOf radix x =
     (let n = (of_char x :: nat);
          v = (if 48 \<le> n \<and> n \<le> 57 then Some (n - 48)
               else if 97 \<le> n \<and> n \<le> 122 then Some (n - 87)
               else if 65 \<le> n \<and> n \<le> 90 then Some (n - 55)
               else None)
      in case v of None \<Rightarrow> None | Some d \<Rightarrow> if d < radix then Some d else None)"

fun digits :: "nat \<Rightarrow> string \<Rightarrow> nat list" where
  "digits radix [] = []"
| "digits radix (x # xs) =
     (case digitOf radix x of None \<Rightarrow> [] | Some d \<Rightarrow> d # digits radix xs)"

definition parseInt :: "string option \<Rightarrow> int option" where
  "parseInt v =
     (let s = dropWhile isSpace (case v of None \<Rightarrow> ''undefined'' | Some t \<Rightarrow> t);
          neg = (s \<noteq> [] \<and> hd s = CHR ''-'');
          s1 = (if s \<noteq> [] \<and> (hd s = CHR ''-'' \<or> hd s = CHR ''+'') then tl s else s);
          hex = (2 \<le> length s1 \<and> hd s1 = CHR ''0'' \<and>
                 (s1 ! 1 = CHR ''x'' \<or> s1 ! 1 = CHR ''X''));
          radix = (if hex then 16 else 10);
          ds = digits radix (if hex then drop 2 s1 else s1)
      in if ds = [] then None
         else Some ((if neg then - 1 else 1) * int (fold (\<lambda>d n. n * radix + d) ds 0)))"

text \<open>
  \<^verbatim>\<open>.replace(/^'|'+$/g, "")\<close> removes a quote the string starts with and then the
  quotes it ends with.
\<close>

definition stripQuotes :: "string \<Rightarrow> string" where
  "stripQuotes w =
     (let w1 = (if w \<noteq> [] \<and> hd w = CHR 0x27 then tl w else w)
      in rev (dropWhile (\<lambda>x. x = CHR 0x27) (rev w1)))"

text \<open>
  \<^verbatim>\<open>mapping[id] = word\<close>. A mapping is read at the ids of slots, which are natural
  numbers: the property \<^verbatim>\<open>NaN\<close> and the properties of negative numbers, which the
  assignment sets as well, are not part of \<open>mapping\<close>.
\<close>

definition setKey :: "mapping \<Rightarrow> int option \<Rightarrow> string \<Rightarrow> mapping" where
  "setKey m i w =
     (case i of
        None \<Rightarrow> m
      | Some n \<Rightarrow> if 0 \<le> n then m(nat n \<mapsto> w) else m)"

text \<open>
  \<^verbatim>\<open>while (t && t.indicator === "./2") { ...; const id = parseInt(idTerm.id);\<close>
  \<^verbatim>\<open>const word = (wordTerm.id || "").replace(/^'|'+$/g, ""); mapping[id] = word; t = t.args[1]; }\<close>
\<close>

definition readNode :: "mapping \<Rightarrow> node \<Rightarrow> mapping" where
  "readNode m nd =
     setKey m (parseInt (fst nd)) (stripQuotes (case snd nd of None \<Rightarrow> [] | Some w \<Rightarrow> w))"

definition readAssigns :: "node list \<Rightarrow> mapping" where
  "readAssigns ns = foldl readNode Map.empty ns"

definition solveFor ::
  "(string \<Rightarrow> string) \<Rightarrow> grid \<Rightarrow> string list \<Rightarrow> engine \<Rightarrow> (error + mapping option) option" where
  "solveFor up g wordList eng =
     (case computeSlots g of
        Inl e \<Rightarrow> Some (Inl e)
      | Inr ss \<Rightarrow>
          if length ss = 0 then Some (Inr None)
          else
            (case eng of
               Unavailable \<Rightarrow> solveJS up g wordList
             | ConsultFails \<Rightarrow> Some (Inl EngineError)
             | QueryFails \<Rightarrow> Some (Inr None)
             | Answers NoAnswer \<Rightarrow> Some (Inr None)
             | Answers NoAssigns \<Rightarrow> Some (Inr None)
             | Answers (Assigns ns) \<Rightarrow> Some (Inr (Some (readAssigns ns)))))"

section \<open>The word list\<close>

text \<open>
  \<^verbatim>\<open>wordsText.split(/\r?\n|[;,]+/)\<close>: the text is cut at every line feed (with the
  carriage return before it, if any) and at every run of semicolons and commas.
\<close>

definition isSep :: "char \<Rightarrow> bool" where
  "isSep x = (x = CHR '';'' \<or> x = CHR '','')"

function splitLoop :: "string \<Rightarrow> string \<Rightarrow> string list" where
  "splitLoop cur [] = [cur]"
| "splitLoop cur (x # xs) =
     (if x = CHR 0x0D \<and> xs \<noteq> [] \<and> hd xs = CHR 0x0A then cur # splitLoop [] (tl xs)
      else if x = CHR 0x0A then cur # splitLoop [] xs
      else if isSep x then cur # splitLoop [] (dropWhile isSep xs)
      else splitLoop (cur @ [x]) xs)"
  by pat_completeness auto
termination
proof (relation "measure (\<lambda>(cur, xs). length xs)", goal_cases)
  case 1
  show ?case by simp
next
  case (2 cur x xs)
  then show ?case by (cases xs) auto
next
  case (3 cur x xs)
  then show ?case by simp
next
  case (4 cur x xs)
  have "length (dropWhile isSep xs) \<le> length xs" by (rule length_dropWhile_le)
  then show ?case by simp
next
  case (5 cur x xs)
  then show ?case by simp
qed

definition splitText :: "string \<Rightarrow> string list" where
  "splitText t = splitLoop [] t"

text \<open>\<^verbatim>\<open>trim\<close> removes the white space at both ends.\<close>

definition trim :: "string \<Rightarrow> string" where
  "trim w = rev (dropWhile isSpace (rev (dropWhile isSpace w)))"

text \<open>\<^verbatim>\<open>w => w.toUpperCase().replace(/[^A-Z]/g, "").trim()\<close>\<close>

definition normalize ::
  "(string \<Rightarrow> string) \<Rightarrow> string \<Rightarrow> string" where
  "normalize up w = trim (filter isAZ (up w))"

definition words ::
  "(string \<Rightarrow> string) \<Rightarrow> string \<Rightarrow> string list" where
  "words up wordsText = filter (\<lambda>w. 2 \<le> length w) (map (normalize up) (splitText wordsText))"

section \<open>Projection of a mapping onto the grid\<close>

text \<open>
  \<^verbatim>\<open>onSolve\<close> copies the grid and writes into the copy. Whether the writes reach the
  cells of the input depends on which objects the copy shares with it, so the cells live
  in a store: \<open>cells\<close> maps an address to the object there and \<open>fresh\<close> is the next
  unused address. A grid is then the matrix of the addresses of its cells.
\<close>

record store =
  cells :: "nat \<Rightarrow> cell"
  fresh :: nat

type_synonym refgrid = "nat list list"

definition view :: "store \<Rightarrow> refgrid \<Rightarrow> grid" where
  "view h rg = map (map (cells h)) rg"

text \<open>\<^verbatim>\<open>{ ...c }\<close>: a new object with the fields of \<open>c\<close>.\<close>

definition spread :: "store \<Rightarrow> nat \<Rightarrow> store \<times> nat" where
  "spread h a = (\<lparr>cells = (cells h)(fresh h := cells h a), fresh = fresh h + 1\<rparr>, fresh h)"

text \<open>\<^verbatim>\<open>row.map(c => ({ ...c }))\<close> and \<^verbatim>\<open>grid.map(row => ...)\<close>\<close>

fun copyRow :: "store \<Rightarrow> nat list \<Rightarrow> store \<times> nat list" where
  "copyRow h [] = (h, [])"
| "copyRow h (a # as) =
     (let (h1, a') = spread h a; (h2, as') = copyRow h1 as in (h2, a' # as'))"

fun copyGrid :: "store \<Rightarrow> refgrid \<Rightarrow> store \<times> refgrid" where
  "copyGrid h [] = (h, [])"
| "copyGrid h (row # rows) =
     (let (h1, row') = copyRow h row; (h2, rows') = copyGrid h1 rows in (h2, row' # rows'))"

text \<open>\<^verbatim>\<open>filled[rr][cc].ch = w[k]\<close>\<close>

definition setCh :: "store \<Rightarrow> refgrid \<Rightarrow> nat \<times> nat \<Rightarrow> string option \<Rightarrow> error + store" where
  "setCh h filled rc v =
     (if fst rc < length filled \<and> snd rc < length (filled ! fst rc)
      then Inr (h\<lparr>cells := (cells h)(filled ! fst rc ! snd rc :=
                  (cells h (filled ! fst rc ! snd rc))\<lparr>ch := v\<rparr>)\<rparr>)
      else Inl TypeError)"

fun fillSlot :: "refgrid \<Rightarrow> slot \<Rightarrow> string \<Rightarrow> nat list \<Rightarrow> store \<Rightarrow> error + store" where
  "fillSlot filled s w [] h = Inr h"
| "fillSlot filled s w (k # ks) h =
     (case setCh h filled (cellOf s k) (charAt w k) of
        Inl e \<Rightarrow> Inl e
      | Inr h' \<Rightarrow> fillSlot filled s w ks h')"

text \<open>\<^verbatim>\<open>for (const s of slots) { const w = mapping[s.id]; if (!w) continue; ... }\<close>\<close>

fun fillAll :: "refgrid \<Rightarrow> mapping \<Rightarrow> slot list \<Rightarrow> store \<Rightarrow> error + store" where
  "fillAll filled m [] h = Inr h"
| "fillAll filled m (s # ss) h =
     (case m (sid s) of
        None \<Rightarrow> fillAll filled m ss h
      | Some w \<Rightarrow>
          if w = [] then fillAll filled m ss h
          else
            (case fillSlot filled s w [0..<slen s] h of
               Inl e \<Rightarrow> Inl e
             | Inr h' \<Rightarrow> fillAll filled m ss h'))"

text \<open>
  Lines 355 to 366 of \<^verbatim>\<open>onSolve\<close>: the slots of the grid, the copy, the writes. The
  result is the store after the writes and the grid \<^verbatim>\<open>filled\<close> handed to
  \<^verbatim>\<open>setSolved\<close>.
\<close>

definition project :: "store \<Rightarrow> refgrid \<Rightarrow> mapping \<Rightarrow> error + store \<times> refgrid" where
  "project h rg m =
     (case computeSlots (view h rg) of
        Inl e \<Rightarrow> Inl e
      | Inr ss \<Rightarrow>
          (let (h1, filled) = copyGrid h rg
           in case fillAll filled m ss h1 of
                Inl e \<Rightarrow> Inl e
              | Inr h2 \<Rightarrow> Inr (h2, filled)))"

section \<open>Fixtures\<close>

text \<open>
  The cells and grids of \<^verbatim>\<open>runBuiltInTests\<close>: \<^verbatim>\<open>make2D(r, c, { blocked: b })\<close>
  yields cells without a letter.
\<close>

text \<open>
  On a text of ASCII characters \<^verbatim>\<open>toUpperCase\<close> turns the letters a to z into A to
  Z and keeps every other character. The examples call the functions with it.
\<close>

definition upperChar :: "char \<Rightarrow> char" where
  "upperChar x =
     (let n = (of_char x :: nat) in if 97 \<le> n \<and> n \<le> 122 then char_of (n - 32) else x)"

definition upperASCII :: "string \<Rightarrow> string" where
  "upperASCII w = map upperChar w"

text \<open>
  In a text of ASCII characters and sharp s, \<^verbatim>\<open>toUpperCase\<close> turns every sharp s into
  \<^verbatim>\<open>SS\<close> as well.
\<close>

definition upperSharp :: "string \<Rightarrow> string" where
  "upperSharp w = concat (map (\<lambda>x. if x = CHR 0xDF then ''SS'' else [upperChar x]) w)"

definition openCell :: cell where
  "openCell = \<lparr>blocked = False, ch = None\<rparr>"

definition blockedCell :: cell where
  "blockedCell = \<lparr>blocked = True, ch = None\<rparr>"

definition testGrid1 :: grid where
  "testGrid1 =
     [[openCell, openCell, openCell],
      [blockedCell, openCell, blockedCell],
      [openCell, openCell, openCell]]"

definition testGrid2 :: grid where
  "testGrid2 = [[blockedCell, blockedCell], [blockedCell, blockedCell]]"

definition testGrid3 :: grid where
  "testGrid3 = [[openCell, openCell, openCell, openCell]]"

text \<open>A grid is rectangular when all its rows have the length of the first.\<close>

definition rectangular :: "grid \<Rightarrow> bool" where
  "rectangular g = list_all (\<lambda>row. length row = length (hd g)) g"

text \<open>
  A slot is unassigned when \<^verbatim>\<open>assignment[s.id]\<close> is false; the size of its domain is
  the \<^verbatim>\<open>size\<close> that \<^verbatim>\<open>pickNext\<close> compares.
\<close>

definition unassigned :: "state \<Rightarrow> slot \<Rightarrow> bool" where
  "unassigned st s = (\<not> truthy (assignment st (sid s)))"

definition sizeOf :: "env \<Rightarrow> state \<Rightarrow> slot \<Rightarrow> nat" where
  "sizeOf env st s = (case domainFor env st s of Inl e \<Rightarrow> 0 | Inr d \<Rightarrow> length d)"

text \<open>
  The environment \<^verbatim>\<open>solveJS\<close> builds for the first grid of \<^verbatim>\<open>runBuiltInTests\<close>
  and its words, and two states of the search: slot 0 holds CAT, or slot 2 does.
\<close>

definition testEnv1 :: env where
  "testEnv1 =
     \<lparr>slots = [\<lparr>sid = 0, sr = 0, sc = 0, slen = 3, sdir = H\<rparr>,
               \<lparr>sid = 1, sr = 2, sc = 0, slen = 3, sdir = H\<rparr>,
               \<lparr>sid = 2, sr = 0, sc = 1, slen = 3, sdir = V\<rparr>],
      byLen = indexByLen [''CAT'', ''DOG'', ''AXO''],
      fixed = [0 \<mapsto> [], 1 \<mapsto> [], 2 \<mapsto> []],
      crossingMap =
        [0 \<mapsto> [\<lparr>otherId = 2, idxThis = 1, idxOther = 0\<rparr>],
         1 \<mapsto> [\<lparr>otherId = 2, idxThis = 1, idxOther = 2\<rparr>],
         2 \<mapsto> [\<lparr>otherId = 0, idxThis = 0, idxOther = 1\<rparr>,
               \<lparr>otherId = 1, idxThis = 2, idxOther = 1\<rparr>]]\<rparr>"

definition testState1 :: state where
  "testState1 = \<lparr>assignment = [0 \<mapsto> ''CAT''], used = {''CAT''}\<rparr>"

definition testState2 :: state where
  "testState2 = \<lparr>assignment = [2 \<mapsto> ''CAT''], used = {''CAT''}\<rparr>"

text \<open>
  What a scan sees of a line: the position \<open>i\<close> is open when its cell is there and is not
  blocked. A run of the line starts at \<open>a\<close>, has \<open>l\<close> cells, all open, and is bounded
  on both sides by the ends of the line or by a cell that is not open.
\<close>

definition opn :: "(nat \<Rightarrow> error + cell) \<Rightarrow> nat \<Rightarrow> bool" where
  "opn get i = (case get i of Inl e \<Rightarrow> False | Inr x \<Rightarrow> \<not> blocked x)"

definition lineRun :: "(nat \<Rightarrow> error + cell) \<Rightarrow> nat \<Rightarrow> nat \<Rightarrow> nat \<Rightarrow> bool" where
  "lineRun get n a l =
     (a + l \<le> n \<and> (\<forall>k<l. opn get (a + k)) \<and> (a = 0 \<or> \<not> opn get (a - 1)) \<and>
      (a + l = n \<or> \<not> opn get (a + l)))"

text \<open>The slots pushed for a list of runs, numbered from \<open>i\<close>.\<close>

fun mkRuns :: "(nat \<Rightarrow> nat \<Rightarrow> nat \<Rightarrow> slot) \<Rightarrow> nat \<Rightarrow> (nat \<times> nat) list \<Rightarrow> slot list" where
  "mkRuns mk i [] = []"
| "mkRuns mk i ((a, l) # ps) = mk i a l # mkRuns mk (Suc i) ps"

text \<open>
  On the grid: a cell is open when it is inside the grid and not blocked. The cells of a
  maximal run are open, the cell after the last one is not, and neither is the cell before
  the first one.
\<close>

definition openAt :: "grid \<Rightarrow> nat \<times> nat \<Rightarrow> bool" where
  "openAt g rc =
     (fst rc < length g \<and> snd rc < length (g ! fst rc) \<and> \<not> blocked (g ! fst rc ! snd rc))"

definition isRun :: "grid \<Rightarrow> slot \<Rightarrow> bool" where
  "isRun g s =
     ((\<forall>k<slen s. openAt g (cellOf s k)) \<and> \<not> openAt g (cellOf s (slen s)) \<and>
      (case sdir s of
         H \<Rightarrow> sc s = 0 \<or> \<not> openAt g (sr s, sc s - 1)
       | V \<Rightarrow> sr s = 0 \<or> \<not> openAt g (sr s - 1, sc s)))"

text \<open>Two slots stand for the same run when they differ in their identifier at most.\<close>

definition sameRun :: "slot \<Rightarrow> slot \<Rightarrow> bool" where
  "sameRun s t = (sr s = sr t \<and> sc s = sc t \<and> slen s = slen t \<and> sdir s = sdir t)"

text \<open>
  The order of discovery: the horizontal slots before the vertical ones, the horizontal
  ones by row and then by column, the vertical ones by column and then by row.
\<close>

definition scanBefore :: "slot \<Rightarrow> slot \<Rightarrow> bool" where
  "scanBefore s t =
     (case (sdir s, sdir t) of
        (H, H) \<Rightarrow> sr s < sr t \<or> (sr s = sr t \<and> sc s < sc t)
      | (H, V) \<Rightarrow> True
      | (V, H) \<Rightarrow> False
      | (V, V) \<Rightarrow> sc s < sc t \<or> (sc s = sc t \<and> sr s < sr t))"

text \<open>\<open>u\<close> stands before \<open>v\<close> in a list.\<close>

fun before :: "'a list \<Rightarrow> 'a \<Rightarrow> 'a \<Rightarrow> bool" where
  "before [] u v = False"
| "before (x # xs) u v = ((x = u \<and> v \<in> set xs) \<or> before xs u v)"

text \<open>
  What the first loop of \<^verbatim>\<open>buildCrosses\<close> pushes, in the order it pushes it: for each
  slot and each offset, the key of the cell and the entry for it.
\<close>

definition entriesOf :: "slot \<Rightarrow> ((nat \<times> nat) \<times> mark) list" where
  "entriesOf s = map (\<lambda>k. (cellOf s k, \<lparr>slotId = sid s, off = k\<rparr>)) [0..<slen s]"

definition entries :: "slot list \<Rightarrow> ((nat \<times> nat) \<times> mark) list" where
  "entries ss = concat (map entriesOf ss)"

text \<open>
  The letter \<^verbatim>\<open>solveJS\<close> finds in a cell: the content of the cell in upper case, when
  it is a non-empty string with a character of A-Z in it. A word fits the letters fixed
  in a slot when it has each of them at its offset.
\<close>

definition letterAt ::
  "(string \<Rightarrow> string) \<Rightarrow> grid \<Rightarrow> nat \<times> nat \<Rightarrow> string option" where
  "letterAt up g rc =
     (case cellAt g (fst rc) (snd rc) of
        Inl e \<Rightarrow> None
      | Inr x \<Rightarrow>
          (case map_option up (ch x) of
             None \<Rightarrow> None
           | Some u \<Rightarrow> if u \<noteq> [] \<and> list_ex isAZ u then Some u else None))"

definition fitsFixed ::
  "(string \<Rightarrow> string) \<Rightarrow> grid \<Rightarrow> slot \<Rightarrow> string \<Rightarrow> bool" where
  "fitsFixed up g s w =
     (\<forall>k<slen s. \<forall>u. letterAt up g (cellOf s k) = Some u \<longrightarrow> charAt w k = Some u)"

text \<open>
  An assignment solves the puzzle: every slot has a word of the list, of the length of
  the slot, that fits the letters fixed in the slot; two slots never have the same word;
  and for every crossing constraint the two words have the same character at the two
  offsets.
\<close>

definition solution ::
  "(string \<Rightarrow> string) \<Rightarrow> grid \<Rightarrow> string list \<Rightarrow> slot list \<Rightarrow> mapping \<Rightarrow> bool" where
  "solution up g wordList ss m =
     ((\<forall>s\<in>set ss. \<exists>w. m (sid s) = Some w \<and> w \<in> set wordList \<and> length w = slen s \<and>
          fitsFixed up g s w) \<and>
      (\<forall>s\<in>set ss. \<forall>t\<in>set ss. sid s \<noteq> sid t \<longrightarrow> m (sid s) \<noteq> m (sid t)) \<and>
      (\<forall>x\<in>set (buildCrosses ss). \<exists>wa wb. m (ca x) = Some wa \<and> m (cb x) = Some wb \<and>
          cia x < length wa \<and> cib x < length wb \<and> wa ! cia x = wb ! cib x))"

text \<open>
  A word fits the constraints of the slot \<open>i\<close> against the slots assigned so far: the
  test \<^verbatim>\<open>domainFor\<close> makes over the entries of \<^verbatim>\<open>crossingMap\<close> for the slot, read
  off the constraints themselves.
\<close>

definition crossFits :: "cross list \<Rightarrow> mapping \<Rightarrow> nat \<Rightarrow> string \<Rightarrow> bool" where
  "crossFits xs asg i w =
     (\<forall>x\<in>set xs.
        (ca x = i \<longrightarrow> crossOk asg w \<lparr>otherId = cb x, idxThis = cia x, idxOther = cib x\<rparr>) \<and>
        (cb x = i \<longrightarrow> crossOk asg w \<lparr>otherId = ca x, idxThis = cib x, idxOther = cia x\<rparr>))"

text \<open>
  The words \<^verbatim>\<open>domainFor\<close> returns for a slot of the puzzle, in the order of the word
  list: the words of the length of the slot that are not used, fit the letters fixed in
  the slot and fit the constraints against the assigned slots.
\<close>

definition candidates ::
  "(string \<Rightarrow> string) \<Rightarrow> grid \<Rightarrow> string list \<Rightarrow> slot list \<Rightarrow> state \<Rightarrow> slot \<Rightarrow> string list" where
  "candidates up g wordList ss st s =
     filter (\<lambda>w. length w = slen s \<and> w \<notin> used st \<and> fitsFixed up g s w \<and>
                crossFits (buildCrosses ss) (assignment st) (sid s) w) wordList"

text \<open>
  The environment \<open>E\<close> is the one of a puzzle: its slots have distinct identifiers and at
  least two cells, a constraint relates two different slots at offsets inside them, and
  \<^verbatim>\<open>domainFor\<close> returns the candidates of every slot.
\<close>

definition puzzle ::
  "(string \<Rightarrow> string) \<Rightarrow> grid \<Rightarrow> string list \<Rightarrow> slot list \<Rightarrow> env \<Rightarrow> bool" where
  "puzzle up g wordList ss E =
     (slots E = ss \<and> distinct (map sid ss) \<and> (\<forall>s\<in>set ss. 2 \<le> slen s) \<and>
      (\<forall>x\<in>set (buildCrosses ss). ca x \<noteq> cb x \<and>
          (\<exists>s\<in>set ss. sid s = ca x \<and> cia x < slen s) \<and>
          (\<exists>t\<in>set ss. sid t = cb x \<and> cib x < slen t)) \<and>
      (\<forall>s\<in>set ss. \<forall>st. domainFor E st s = Inr (candidates up g wordList ss st s)))"

text \<open>
  The invariant of the search: every assigned word is a word of the list for a slot, of
  the length of the slot and fitting its fixed letters; the used words are the assigned
  ones; no word is assigned twice; a constraint between two assigned slots holds.
\<close>

definition consistent ::
  "(string \<Rightarrow> string) \<Rightarrow> grid \<Rightarrow> string list \<Rightarrow> slot list \<Rightarrow> state \<Rightarrow> bool" where
  "consistent up g wordList ss st =
     ((\<forall>i w. assignment st i = Some w \<longrightarrow>
         (\<exists>s\<in>set ss. sid s = i \<and> w \<in> set wordList \<and> length w = slen s \<and> fitsFixed up g s w)) \<and>
      used st = ran (assignment st) \<and>
      inj_on (assignment st) (dom (assignment st)) \<and>
      (\<forall>x\<in>set (buildCrosses ss). \<forall>wa wb.
          assignment st (ca x) = Some wa \<and> assignment st (cb x) = Some wb \<longrightarrow>
          charAt wa (cia x) = charAt wb (cib x)))"

text \<open>
  The number of slots still without a word, and the state a successful search leaves
  behind: consistent, an extension of the state it started from, with a word for every
  slot.
\<close>

definition remaining :: "slot list \<Rightarrow> state \<Rightarrow> nat" where
  "remaining ss st = length (filter (\<lambda>s. assignment st (sid s) = None) ss)"

definition succeeds ::
  "(string \<Rightarrow> string) \<Rightarrow> grid \<Rightarrow> string list \<Rightarrow> slot list \<Rightarrow> state \<Rightarrow> state \<Rightarrow> bool" where
  "succeeds up g wordList ss st st' =
     (consistent up g wordList ss st' \<and> assignment st \<subseteq>\<^sub>m assignment st' \<and>
      (\<forall>s\<in>set ss. assignment st' (sid s) \<noteq> None))"

text \<open>
  A grid whose second row is longer than its first, and one whose second row is shorter.
\<close>

definition raggedLong :: grid where
  "raggedLong = [[blockedCell], [blockedCell, openCell, openCell]]"

definition raggedShort :: grid where
  "raggedShort = [[openCell, openCell], [openCell]]"

text \<open>
  The writes of the projection, as a list: the cell written and the value, in the order of
  the loops of \<^verbatim>\<open>onSolve\<close>.
\<close>

fun runWrites :: "refgrid \<Rightarrow> ((nat \<times> nat) \<times> string option) list \<Rightarrow> store \<Rightarrow> error + store" where
  "runWrites filled [] h = Inr h"
| "runWrites filled (p # ps) h =
     (case setCh h filled (fst p) (snd p) of
        Inl e \<Rightarrow> Inl e
      | Inr h' \<Rightarrow> runWrites filled ps h')"

definition writesOf :: "mapping \<Rightarrow> slot \<Rightarrow> ((nat \<times> nat) \<times> string option) list" where
  "writesOf m s =
     (case m (sid s) of
        None \<Rightarrow> []
      | Some w \<Rightarrow> if w = [] then [] else map (\<lambda>k. (cellOf s k, charAt w k)) [0..<slen s])"

definition writes :: "mapping \<Rightarrow> slot list \<Rightarrow> ((nat \<times> nat) \<times> string option) list" where
  "writes m ss = concat (map (writesOf m) ss)"

definition target :: "refgrid \<Rightarrow> (nat \<times> nat) \<times> string option \<Rightarrow> nat" where
  "target filled p = filled ! fst (fst p) ! snd (fst p)"

text \<open>
  Every cell object of the grid has been allocated in the store.
\<close>

definition allocated :: "store \<Rightarrow> refgrid \<Rightarrow> bool" where
  "allocated h rg = list_all (list_all (\<lambda>a. a < fresh h)) rg"

text \<open>
  What the projection does to the cell at a position: \<open>old\<close> is the cell of the grid
  given, \<open>new\<close> the cell of the grid returned.
\<close>

definition wrote :: "mapping \<Rightarrow> slot \<Rightarrow> nat \<Rightarrow> cell \<Rightarrow> cell \<Rightarrow> bool" where
  "wrote m s k old new =
     (case m (sid s) of
        None \<Rightarrow> False
      | Some w \<Rightarrow> w \<noteq> [] \<and> new = old\<lparr>ch := charAt w k\<rparr>)"

definition covered :: "slot list \<Rightarrow> mapping \<Rightarrow> nat \<times> nat \<Rightarrow> bool" where
  "covered ss m rc = (\<exists>s\<in>set ss. \<exists>k<slen s. cellOf s k = rc \<and> truthy (m (sid s)))"

definition projected :: "slot list \<Rightarrow> mapping \<Rightarrow> nat \<times> nat \<Rightarrow> cell \<Rightarrow> cell \<Rightarrow> bool" where
  "projected ss m rc old new =
     (blocked new = blocked old \<and>
      (blocked old \<longrightarrow> new = old) \<and>
      (\<not> covered ss m rc \<longrightarrow> new = old) \<and>
      (covered ss m rc \<longrightarrow> (\<exists>s\<in>set ss. \<exists>k<slen s. cellOf s k = rc \<and> wrote m s k old new)))"

text \<open>
  A store of three cells, the first blocked, and the grid of one row that refers to them.
\<close>

definition testStore :: store where
  "testStore = \<lparr>cells = (\<lambda>a. if a = 0 then blockedCell else openCell), fresh = 3\<rparr>"

definition testRefs :: refgrid where
  "testRefs = [[0, 1, 2]]"

section \<open>Properties\<close>

subsection \<open>No slots\<close>

text \<open>
  C7: when slot extraction finds no slot, \<^verbatim>\<open>solveJS\<close> and \<^verbatim>\<open>solveFor\<close> both return
  \<^verbatim>\<open>null\<close>, whatever the word list and whatever the Prolog engine does; the result is
  a value, not an error.
\<close>

theorem noSlots_none:
  "computeSlots g = Inr [] \<Longrightarrow>
     solveJS up g wordList = Some (Inr None) \<and> solveFor up g wordList eng = Some (Inr None)"
  by (simp add: solveJS_def solveFor_def)

theorem noSlots_none_witness:
  "computeSlots testGrid2 = Inr [] \<and>
   solveJS upperASCII testGrid2 [''AA''] = Some (Inr None) \<and>
   solveFor upperASCII testGrid2 [''AA''] (Answers (Assigns [(Some ''0'', Some ''AA'')])) =
     Some (Inr None)"
proof -
  have h: "computeSlots testGrid2 = Inr []" by code_simp
  show ?thesis using h noSlots_none [OF h] by simp
qed

subsection \<open>Engine selection\<close>

lemma solveFor_unavailable: "solveFor up g wordList Unavailable = solveJS up g wordList"
  by (auto simp: solveFor_def solveJS_def split: sum.splits)

lemma solveFor_available:
  assumes "computeSlots g = Inr ss" "ss \<noteq> []"
  shows "solveFor up g wordList (Answers NoAnswer) = Some (Inr None)"
    and "solveFor up g wordList (Answers NoAssigns) = Some (Inr None)"
    and "solveFor up g wordList QueryFails = Some (Inr None)"
    and "solveFor up g wordList ConsultFails = Some (Inl EngineError)"
    and "solveFor up g wordList (Answers (Assigns ns)) = Some (Inr (Some (readAssigns ns)))"
  using assms by (simp_all add: solveFor_def)

text \<open>
  What \<^verbatim>\<open>solveFor\<close> passes on of an answer: the slot whose id the last node with that
  id names has the word of that node, without its quotes; a node whose id field is not
  there, or is no number, names no slot.
\<close>

lemma readAssigns_snoc:
  "readAssigns (ns @ [nd]) = setKey (readAssigns ns) (parseInt (fst nd))
     (stripQuotes (case snd nd of None \<Rightarrow> [] | Some w \<Rightarrow> w))"
  by (simp add: readAssigns_def readNode_def)

lemma readAssigns_lookup:
  "readAssigns ns k =
     (let hits = filter (\<lambda>nd. parseInt (fst nd) = Some (int k)) ns
      in if hits = [] then None
         else Some (stripQuotes (case snd (last hits) of None \<Rightarrow> [] | Some w \<Rightarrow> w)))"
proof (induction ns rule: rev_induct)
  case Nil
  show ?case by (simp add: readAssigns_def)
next
  case (snoc nd ns)
  show ?case
  proof (cases "parseInt (fst nd) = Some (int k)")
    case True
    have "readAssigns (ns @ [nd]) k =
        Some (stripQuotes (case snd nd of None \<Rightarrow> [] | Some w \<Rightarrow> w))"
      using True by (simp add: readAssigns_snoc setKey_def)
    then show ?thesis using True by (simp add: Let_def)
  next
    case False
    have "readAssigns (ns @ [nd]) k = readAssigns ns k"
      using False by (auto simp: readAssigns_snoc setKey_def split: option.splits)
    then show ?thesis using False snoc by (simp add: Let_def)
  qed
qed

lemma parseInt_examples:
  "parseInt (Some ''12ab'') = Some 12 \<and> parseInt (Some '' -0x1F'') = Some (- 31) \<and>
   parseInt (Some ''+7'') = Some 7 \<and> parseInt (Some ''-0'') = Some 0 \<and>
   parseInt (Some ''0x'') = None \<and> parseInt (Some ''ab'') = None \<and> parseInt None = None"
  by code_simp

lemma stripQuotes_examples:
  "stripQuotes [CHR 0x27, CHR ''A'', CHR 0x27, CHR ''B'', CHR 0x27, CHR 0x27] =
     [CHR ''A'', CHR 0x27, CHR ''B''] \<and>
   stripQuotes [CHR 0x27, CHR 0x27, CHR ''A''] = [CHR 0x27, CHR ''A''] \<and>
   stripQuotes [CHR 0x27, CHR 0x27, CHR 0x27] = []"
  by code_simp

lemma readAssigns_example:
  "readAssigns [(Some ''0'', Some ''ABCD''), (Some ''1'', Some [CHR 0x27, CHR ''A'', CHR ''B'', CHR 0x27]),
                (None, Some ''EF''), (Some ''x'', Some ''GH''), (Some ''0'', Some ''EFGH'')] =
     [0 \<mapsto> ''EFGH'', 1 \<mapsto> ''AB'']"
proof -
  have p: "parseInt (Some ''0'') = Some 0" "parseInt (Some ''1'') = Some 1"
    "parseInt None = None" "parseInt (Some ''x'') = None"
    by code_simp+
  have q: "stripQuotes [CHR 0x27, CHR ''A'', CHR ''B'', CHR 0x27] = ''AB''"
    "stripQuotes ''ABCD'' = ''ABCD''" "stripQuotes ''EFGH'' = ''EFGH''"
    by code_simp+
  show ?thesis
    by (simp add: readAssigns_def readNode_def setKey_def p q fun_upd_twist)
qed

lemma readAssigns_none: "\<forall>nd\<in>set ns. fst nd = None \<Longrightarrow> readAssigns ns = Map.empty"
proof (induction ns rule: rev_induct)
  case Nil
  show ?case by (simp add: readAssigns_def)
next
  case (snoc nd ns)
  have "parseInt None = None" by code_simp
  with snoc show ?case by (simp add: readAssigns_snoc setKey_def)
qed

text \<open>
  C5 holds of the fallback on unavailability and of the answer that is false, and fails
  where the engine fails: on the puzzles of the built-in tests 1 and 4, which
  \<^verbatim>\<open>solveJS\<close> solves and the tests expect solved, \<^verbatim>\<open>solveFor\<close> returns \<^verbatim>\<open>null\<close>
  when the engine answers with the term of an uncaught error, instead of falling back
  to \<^verbatim>\<open>solveJS\<close>.
\<close>

theorem solveFor_no_fallback:
  "solveFor upperASCII testGrid3 [''ABCD'', ''EFGH''] (Answers NoAssigns) = Some (Inr None) \<and>
   solveFor upperASCII testGrid1 [''CAT'', ''DOG'', ''AXO''] (Answers NoAssigns) = Some (Inr None) \<and>
   (case solveJS upperASCII testGrid3 [''ABCD'', ''EFGH''] of
      Some (Inr (Some m)) \<Rightarrow> m 0 = Some ''ABCD'' | _ \<Rightarrow> False) \<and>
   (case solveJS upperASCII testGrid1 [''CAT'', ''DOG'', ''AXO''] of
      Some (Inr (Some m)) \<Rightarrow> m 0 = Some ''CAT'' \<and> m 1 = Some ''DOG'' \<and> m 2 = Some ''AXO''
    | _ \<Rightarrow> False) \<and>
   solveFor upperASCII testGrid3 [''ABCD'', ''EFGH''] Unavailable =
     solveJS upperASCII testGrid3 [''ABCD'', ''EFGH''] \<and>
   solveFor upperASCII testGrid3 [''ABCD'', ''EFGH''] (Answers NoAnswer) = Some (Inr None)"
proof -
  have c3: "computeSlots testGrid3 = Inr [\<lparr>sid = 0, sr = 0, sc = 0, slen = 4, sdir = H\<rparr>]"
    by code_simp
  have c1: "computeSlots testGrid1 =
      Inr [\<lparr>sid = 0, sr = 0, sc = 0, slen = 3, sdir = H\<rparr>,
           \<lparr>sid = 1, sr = 2, sc = 0, slen = 3, sdir = H\<rparr>,
           \<lparr>sid = 2, sr = 0, sc = 1, slen = 3, sdir = V\<rparr>]"
    by code_simp
  have j3: "case solveJS upperASCII testGrid3 [''ABCD'', ''EFGH''] of
      Some (Inr (Some m)) \<Rightarrow> m 0 = Some ''ABCD'' | _ \<Rightarrow> False"
    by code_simp
  have j1: "case solveJS upperASCII testGrid1 [''CAT'', ''DOG'', ''AXO''] of
      Some (Inr (Some m)) \<Rightarrow> m 0 = Some ''CAT'' \<and> m 1 = Some ''DOG'' \<and> m 2 = Some ''AXO''
    | _ \<Rightarrow> False"
    by code_simp
  have a3: "solveFor upperASCII testGrid3 [''ABCD'', ''EFGH''] (Answers NoAssigns) = Some (Inr None)"
    "solveFor upperASCII testGrid3 [''ABCD'', ''EFGH''] (Answers NoAnswer) = Some (Inr None)"
    by (simp_all add: solveFor_def c3)
  have a1: "solveFor upperASCII testGrid1 [''CAT'', ''DOG'', ''AXO''] (Answers NoAssigns) =
      Some (Inr None)"
    by (simp add: solveFor_def c1)
  have u: "solveFor upperASCII testGrid3 [''ABCD'', ''EFGH''] Unavailable =
      solveJS upperASCII testGrid3 [''ABCD'', ''EFGH'']"
    by (simp add: solveFor_def c3)
  show ?thesis using a3 a1 j3 j1 u by simp
qed

subsection \<open>The word list and its index\<close>

lemma isAZ_not_space: "isAZ x \<Longrightarrow> \<not> isSpace x"
  by (auto simp: isAZ_def isSpace_def Let_def)

lemma dropWhile_none: "\<forall>x\<in>set w. \<not> P x \<Longrightarrow> dropWhile P w = w"
  by (cases w) auto

lemma trim_no_space: "\<forall>x\<in>set w. \<not> isSpace x \<Longrightarrow> trim w = w"
  by (simp add: trim_def dropWhile_none)

lemma normalize_eq: "normalize up w = filter isAZ (up w)"
  unfolding normalize_def by (rule trim_no_space) (auto dest: isAZ_not_space)

lemma fold_indexWord:
  "fold indexWord ws m L =
     (case m L of
        None \<Rightarrow> if filter (\<lambda>w. length w = L) ws = [] then None
                else Some (filter (\<lambda>w. length w = L) ws)
      | Some bucket \<Rightarrow> Some (bucket @ filter (\<lambda>w. length w = L) ws))"
proof (induction ws arbitrary: m)
  case Nil
  show ?case by (simp split: option.splits)
next
  case (Cons w ws)
  have step: "indexWord w m L =
      (if length w = L then Some ((case m L of None \<Rightarrow> [] | Some bucket \<Rightarrow> bucket) @ [w])
       else m L)"
    by (simp add: indexWord_def)
  show ?case
    by (simp add: Cons.IH step split: option.splits)
qed

lemma indexByLen_eq:
  "indexByLen ws L =
     (if filter (\<lambda>w. length w = L) ws = [] then None
      else Some (filter (\<lambda>w. length w = L) ws))"
  by (simp add: indexByLen_def fold_indexWord)

text \<open>
  C9: every entry of the text is uppercased, by whatever \<^verbatim>\<open>toUpperCase\<close> is, and
  stripped of what is not in A-Z (after which \<^verbatim>\<open>trim\<close> finds nothing to remove), and
  the entries left with fewer than two letters are dropped: the words are strings of at
  least two letters of A-Z. The index maps a length to the words of exactly that length,
  in the order of the list and with their repetitions; a length no word has is absent.
\<close>

theorem words_indexed:
  "words up t =
     filter (\<lambda>w. 2 \<le> length w) (map (\<lambda>e. filter isAZ (up e)) (splitText t)) \<and>
   list_all (\<lambda>w. 2 \<le> length w \<and> list_all isAZ w \<and> trim w = w) (words up t) \<and>
   indexByLen ws L =
     (if filter (\<lambda>w. length w = L) ws = [] then None
      else Some (filter (\<lambda>w. length w = L) ws))"
proof -
  have n: "normalize up = (\<lambda>e. filter isAZ (up e))"
    by (rule ext) (rule normalize_eq)
  have 1: "words up t =
      filter (\<lambda>w. 2 \<le> length w) (map (\<lambda>e. filter isAZ (up e)) (splitText t))"
    by (simp add: words_def n)
  have t: "trim (filter isAZ e) = filter isAZ e" for e
    by (rule trim_no_space) (auto dest: isAZ_not_space)
  have 2: "list_all (\<lambda>w. 2 \<le> length w \<and> list_all isAZ w \<and> trim w = w) (words up t)"
    unfolding 1 by (auto simp: list_all_iff t)
  show ?thesis using 1 2 indexByLen_eq by blast
qed

theorem words_indexed_witness:
  "words upperASCII ''cat;Dog,, a\<newline>x-ray;PROLOG;cat'' =
     [''CAT'', ''DOG'', ''XRAY'', ''PROLOG'', ''CAT''] \<and>
   words upperSharp [CHR ''s'', CHR 0xDF, CHR '';'', CHR ''a'', CHR ''b''] = [''SSS'', ''AB''] \<and>
   indexByLen [''CAT'', ''DOG'', ''XRAY'', ''PROLOG'', ''CAT''] 3 = Some [''CAT'', ''DOG'', ''CAT''] \<and>
   indexByLen [''CAT'', ''DOG'', ''XRAY'', ''PROLOG'', ''CAT''] 5 = None"
proof -
  have w: "words upperASCII ''cat;Dog,, a\<newline>x-ray;PROLOG;cat'' =
      [''CAT'', ''DOG'', ''XRAY'', ''PROLOG'', ''CAT'']"
    by code_simp
  have v: "words upperSharp [CHR ''s'', CHR 0xDF, CHR '';'', CHR ''a'', CHR ''b''] = [''SSS'', ''AB'']"
    by code_simp
  show ?thesis
    using w v
      words_indexed [of upperASCII "''cat;Dog,, a\<newline>x-ray;PROLOG;cat''"
        "[''CAT'', ''DOG'', ''XRAY'', ''PROLOG'', ''CAT'']" 3]
      words_indexed [of upperASCII "''cat;Dog,, a\<newline>x-ray;PROLOG;cat''"
        "[''CAT'', ''DOG'', ''XRAY'', ''PROLOG'', ''CAT'']" 5]
    by simp
qed

subsection \<open>The choice of the next slot\<close>

lemma argmin_step:
  "arg_min_list f (x # y # zs) = arg_min_list f ((if f y < f x then y else x) # zs)"
  by (cases zs) (auto simp: Let_def)

lemma argmin_zero: "f x = (0::nat) \<Longrightarrow> arg_min_list f (x # xs) = x"
  by (cases xs) (auto simp: Let_def)

lemma argmin_first:
  "xs \<noteq> [] \<Longrightarrow>
     \<exists>pre post. xs = pre @ arg_min_list f xs # post \<and>
       (\<forall>t\<in>set pre. f (arg_min_list f xs) < f t) \<and>
       (\<forall>t\<in>set post. f (arg_min_list f xs) \<le> f t)"
proof (induction f xs rule: arg_min_list.induct)
  case (1 f x)
  show ?case by (intro exI [of _ "[]"]) simp
next
  case (2 f x y zs)
  let ?m = "arg_min_list f (y # zs)"
  from 2 obtain pre post where d: "y # zs = pre @ ?m # post"
    "\<forall>t\<in>set pre. f ?m < f t" "\<forall>t\<in>set post. f ?m \<le> f t"
    by auto
  show ?case
  proof (cases "f x \<le> f ?m")
    case True
    have fm: "f ?m = Min (f ` set (y # zs))" by (rule f_arg_min_list_f) simp
    have "f ?m \<le> f t" if "t \<in> set (y # zs)" for t
      unfolding fm using that by (intro Min_le) auto
    with True have le: "\<forall>t\<in>set (y # zs). f x \<le> f t"
      by (auto simp del: arg_min_list.simps intro: order_trans)
    have am: "arg_min_list f (x # y # zs) = x" using True by (simp add: Let_def)
    show ?thesis
      unfolding am
      apply (rule exI [of _ "[]"])
      apply (rule exI [of _ "y # zs"])
      using le apply simp
      done
  next
    case False
    have am: "arg_min_list f (x # y # zs) = ?m" using False by (simp add: Let_def)
    have e: "x # y # zs = (x # pre) @ ?m # post" using d(1) by simp
    show ?thesis
      unfolding am
      apply (rule exI [of _ "x # pre"])
      apply (rule exI [of _ post])
      using e d(2,3) False apply (simp del: arg_min_list.simps)
      done
  qed
next
  case (3 f)
  then show ?case by simp
qed

lemma pickLoop_argmin:
  assumes "\<forall>s\<in>set ss. unassigned st s \<longrightarrow> (\<exists>d. domainFor env st s = Inr d)"
    and "\<forall>b n. best = Some (b, n) \<longrightarrow> n = sizeOf env st b \<and> 0 < n"
  shows "pickLoop env st best ss =
     Inr (case (case best of None \<Rightarrow> [] | Some (b, n) \<Rightarrow> [b]) @ filter (unassigned st) ss of
            [] \<Rightarrow> None
          | x # xs \<Rightarrow> Some (arg_min_list (sizeOf env st) (x # xs)))"
  using assms
proof (induction ss arbitrary: best)
  case Nil
  show ?case by (cases best) auto
next
  case (Cons s ss)
  show ?case
  proof (cases "unassigned st s")
    case False
    then have "pickLoop env st best (s # ss) = pickLoop env st best ss"
      by (simp add: unassigned_def)
    also have "\<dots> = Inr (case (case best of None \<Rightarrow> [] | Some (b, n) \<Rightarrow> [b]) @ filter (unassigned st) ss of
            [] \<Rightarrow> None
          | x # xs \<Rightarrow> Some (arg_min_list (sizeOf env st) (x # xs)))"
      using Cons.prems by (intro Cons.IH) auto
    finally show ?thesis using False by simp
  next
    case True
    with Cons.prems obtain d where d: "domainFor env st s = Inr d" by auto
    then have sz: "sizeOf env st s = length d" by (simp add: sizeOf_def)
    show ?thesis
    proof (cases "d = []")
      case True
      have "pickLoop env st best (s # ss) = Inr (Some s)"
        using \<open>unassigned st s\<close> d True by (simp add: unassigned_def)
      moreover have "arg_min_list (sizeOf env st) (s # filter (unassigned st) ss) = s"
        using sz True by (intro argmin_zero) simp
      moreover have "\<And>b. 0 < sizeOf env st b \<Longrightarrow>
          arg_min_list (sizeOf env st) (b # s # filter (unassigned st) ss) = s"
        using sz True by (simp add: argmin_step argmin_zero del: arg_min_list.simps)
      ultimately show ?thesis using \<open>unassigned st s\<close> Cons.prems(2)
        by (cases best) (auto simp del: arg_min_list.simps)
    next
      case False
      define best' where "best' = (case best of
                             None \<Rightarrow> Some (s, length d)
                           | Some (b, bsize) \<Rightarrow> if length d < bsize then Some (s, length d) else best)"
      have step: "pickLoop env st best (s # ss) = pickLoop env st best' ss"
        using \<open>unassigned st s\<close> d False by (simp add: unassigned_def best'_def Let_def)
      have inv: "\<forall>b n. best' = Some (b, n) \<longrightarrow> n = sizeOf env st b \<and> 0 < n"
        using Cons.prems(2) sz False by (auto simp: best'_def split: option.splits if_splits)
      have "pickLoop env st best' ss =
          Inr (case (case best' of None \<Rightarrow> [] | Some (b, n) \<Rightarrow> [b]) @ filter (unassigned st) ss of
            [] \<Rightarrow> None
          | x # xs \<Rightarrow> Some (arg_min_list (sizeOf env st) (x # xs)))"
        using Cons.prems(1) inv by (intro Cons.IH) auto
      moreover have "best = None \<Longrightarrow> best' = Some (s, length d)" by (simp add: best'_def)
      moreover have "\<And>b n. best = Some (b, n) \<Longrightarrow>
          best' = Some (if sizeOf env st s < sizeOf env st b then s else b,
                        if sizeOf env st s < sizeOf env st b then length d else n)"
        using Cons.prems(2) sz by (auto simp: best'_def)
      ultimately show ?thesis using \<open>unassigned st s\<close> step
        by (cases best) (auto simp: argmin_step simp del: arg_min_list.simps)
    qed
  qed
qed


lemma pickLoop_early:
  assumes "unassigned st s" "domainFor env st s = Inr []"
    and "\<forall>t\<in>set pre. unassigned st t \<longrightarrow> (\<exists>d. domainFor env st t = Inr d \<and> d \<noteq> [])"
  shows "pickLoop env st best (pre @ s # post) = Inr (Some s)"
  using assms(3)
proof (induction pre arbitrary: best)
  case Nil
  show ?case using assms(1,2) by (simp add: unassigned_def)
next
  case (Cons t pre)
  show ?case
  proof (cases "unassigned st t")
    case False
    then show ?thesis using Cons by (simp add: unassigned_def)
  next
    case True
    with Cons.prems obtain d where "domainFor env st t = Inr d" "d \<noteq> []" by auto
    then show ?thesis using True Cons by (simp add: unassigned_def Let_def)
  qed
qed

lemma accepts_pure:
  "fixed env (sid s) = Some fx \<Longrightarrow> crossingMap env (sid s) = Some xs \<Longrightarrow>
     accepts env st s w =
       Inr (list_all (\<lambda>(i, c). charAt w i = Some c) fx \<and> list_all (crossOk (assignment st) w) xs)"
  by (auto simp: accepts_def list_ex_iff list_all_iff)

lemma filterE_pure: "\<forall>x\<in>set xs. p x = Inr (q x) \<Longrightarrow> filterE p xs = Inr (filter q xs)"
  by (induction xs) auto

lemma domainFor_pure:
  assumes "fixed env (sid s) = Some fx" "crossingMap env (sid s) = Some xs"
  shows "domainFor env st s =
     Inr (filter (\<lambda>w. w \<notin> used st \<and> list_all (\<lambda>(i, c). charAt w i = Some c) fx \<and>
                      list_all (crossOk (assignment st) w) xs)
            (case byLen env (slen s) of None \<Rightarrow> [] | Some bucket \<Rightarrow> bucket))"
proof -
  have "filterE (accepts env st s) ys =
      Inr (filter (\<lambda>w. list_all (\<lambda>(i, c). charAt w i = Some c) fx \<and>
                       list_all (crossOk (assignment st) w) xs) ys)" for ys
    by (rule filterE_pure) (simp add: accepts_pure [OF assms])
  then show ?thesis
    by (simp add: domainFor_def conj_commute cong: conj_cong)
qed

text \<open>
  C8: \<^verbatim>\<open>pickNext\<close> returns \<^verbatim>\<open>null\<close> exactly when every slot is assigned. Otherwise
  it returns an unassigned slot whose domain is of minimum size among the unassigned
  slots and, the identifiers increasing along \<^verbatim>\<open>slots\<close>, of lowest identifier among
  those of that size. The first unassigned slot with an empty domain is returned
  whatever slots follow it, even slots whose domain cannot be computed. The domain is
  the bucket of the slot's length without the used words, filtered by the letters fixed
  in the grid and by the words of the assigned crossing slots.
\<close>

theorem pickNext_mrv:
  "(sorted_wrt (<) (map sid (slots env)) \<and>
    (\<forall>s\<in>set (slots env). unassigned st s \<longrightarrow> (\<exists>d. domainFor env st s = Inr d)) \<longrightarrow>
      (\<exists>r. pickNext env st = Inr r \<and>
         (r = None \<longleftrightarrow> (\<forall>s\<in>set (slots env). \<not> unassigned st s)) \<and>
         (\<forall>s. r = Some s \<longrightarrow>
            s \<in> set (slots env) \<and> unassigned st s \<and>
            (\<forall>t\<in>set (slots env). unassigned st t \<longrightarrow>
               sizeOf env st s \<le> sizeOf env st t \<and>
               (sizeOf env st t = sizeOf env st s \<longrightarrow> sid s \<le> sid t))))) \<and>
   (slots env = pre @ s # post \<and> unassigned st s \<and> domainFor env st s = Inr [] \<and>
    (\<forall>t\<in>set pre. unassigned st t \<longrightarrow> (\<exists>d. domainFor env st t = Inr d \<and> d \<noteq> [])) \<longrightarrow>
      pickNext env st = Inr (Some s)) \<and>
   (fixed env (sid s) = Some fx \<and> crossingMap env (sid s) = Some xs \<longrightarrow>
      domainFor env st s =
        Inr (filter (\<lambda>w. w \<notin> used st \<and> list_all (\<lambda>(i, c). charAt w i = Some c) fx \<and>
                         list_all (crossOk (assignment st) w) xs)
               (case byLen env (slen s) of None \<Rightarrow> [] | Some bucket \<Rightarrow> bucket)))"
proof (intro conjI impI)
  assume a: "sorted_wrt (<) (map sid (slots env)) \<and>
    (\<forall>s\<in>set (slots env). unassigned st s \<longrightarrow> (\<exists>d. domainFor env st s = Inr d))"
  define us where "us = filter (unassigned st) (slots env)"
  define r where "r = (case us of [] \<Rightarrow> None
                        | x # xs \<Rightarrow> Some (arg_min_list (sizeOf env st) (x # xs)))"
  have pn: "pickNext env st = Inr r"
    unfolding pickNext_def r_def us_def using a by (subst pickLoop_argmin) auto
  have "r = None \<longleftrightarrow> us = []"
    by (cases us) (simp_all add: r_def del: arg_min_list.simps)
  then have none: "r = None \<longleftrightarrow> (\<forall>s\<in>set (slots env). \<not> unassigned st s)"
    by (simp add: us_def filter_empty_conv)
  have some: "m \<in> set (slots env) \<and> unassigned st m \<and>
            (\<forall>t\<in>set (slots env). unassigned st t \<longrightarrow>
               sizeOf env st m \<le> sizeOf env st t \<and>
               (sizeOf env st t = sizeOf env st m \<longrightarrow> sid m \<le> sid t))" if "r = Some m" for m
  proof -
    from that have ne: "us \<noteq> []" and m: "m = arg_min_list (sizeOf env st) us"
      by (auto simp: r_def split: list.splits simp del: arg_min_list.simps)
    from argmin_first [OF ne, of "sizeOf env st"] m obtain pre post where
      d: "us = pre @ m # post" "\<forall>t\<in>set pre. sizeOf env st m < sizeOf env st t"
        "\<forall>t\<in>set post. sizeOf env st m \<le> sizeOf env st t"
      by auto
    have "m \<in> set us" using d(1) by simp
    then have 1: "m \<in> set (slots env)" "unassigned st m" by (auto simp: us_def)
    have "sorted_wrt (<) (map sid us)"
      using a unfolding us_def by (simp add: sorted_wrt_map sorted_wrt_filter)
    then have post: "\<forall>t\<in>set post. sid m < sid t"
      unfolding d(1) by (auto simp: sorted_wrt_append)
    have 2: "sizeOf env st m \<le> sizeOf env st t \<and>
               (sizeOf env st t = sizeOf env st m \<longrightarrow> sid m \<le> sid t)"
      if "t \<in> set (slots env)" "unassigned st t" for t
    proof -
      from that have "t \<in> set us" by (simp add: us_def)
      then consider "t \<in> set pre" | "t = m" | "t \<in> set post" using d(1) by auto
      then show ?thesis
      proof cases
        case 1 with d(2) show ?thesis by auto
      next
        case 2 then show ?thesis by simp
      next
        case 3 with d(3) post show ?thesis by (auto intro: less_imp_le)
      qed
    qed
    show ?thesis using 1 2 by blast
  qed
  show "\<exists>r. pickNext env st = Inr r \<and>
         (r = None \<longleftrightarrow> (\<forall>s\<in>set (slots env). \<not> unassigned st s)) \<and>
         (\<forall>s. r = Some s \<longrightarrow>
            s \<in> set (slots env) \<and> unassigned st s \<and>
            (\<forall>t\<in>set (slots env). unassigned st t \<longrightarrow>
               sizeOf env st s \<le> sizeOf env st t \<and>
               (sizeOf env st t = sizeOf env st s \<longrightarrow> sid s \<le> sid t)))"
    using pn none some by blast
next
  assume "slots env = pre @ s # post \<and> unassigned st s \<and> domainFor env st s = Inr [] \<and>
    (\<forall>t\<in>set pre. unassigned st t \<longrightarrow> (\<exists>d. domainFor env st t = Inr d \<and> d \<noteq> []))"
  then show "pickNext env st = Inr (Some s)"
    by (simp add: pickNext_def pickLoop_early)
next
  assume "fixed env (sid s) = Some fx \<and> crossingMap env (sid s) = Some xs"
  then show "domainFor env st s =
        Inr (filter (\<lambda>w. w \<notin> used st \<and> list_all (\<lambda>(i, c). charAt w i = Some c) fx \<and>
                         list_all (crossOk (assignment st) w) xs)
               (case byLen env (slen s) of None \<Rightarrow> [] | Some bucket \<Rightarrow> bucket))"
    by (simp add: domainFor_pure)
qed

theorem pickNext_mrv_witness:
  "pickNext testEnv1 testState1 = Inr (Some \<lparr>sid = 2, sr = 0, sc = 1, slen = 3, sdir = V\<rparr>) \<and>
   domainFor testEnv1 testState1 \<lparr>sid = 1, sr = 2, sc = 0, slen = 3, sdir = H\<rparr> =
     Inr [''DOG'', ''AXO''] \<and>
   domainFor testEnv1 testState1 \<lparr>sid = 2, sr = 0, sc = 1, slen = 3, sdir = V\<rparr> = Inr [''AXO''] \<and>
   sizeOf testEnv1 testState1 \<lparr>sid = 2, sr = 0, sc = 1, slen = 3, sdir = V\<rparr>
     \<le> sizeOf testEnv1 testState1 \<lparr>sid = 1, sr = 2, sc = 0, slen = 3, sdir = H\<rparr> \<and>
   domainFor testEnv1 testState2 \<lparr>sid = 0, sr = 0, sc = 0, slen = 3, sdir = H\<rparr> = Inr [] \<and>
   pickNext testEnv1 testState2 = Inr (Some \<lparr>sid = 0, sr = 0, sc = 0, slen = 3, sdir = H\<rparr>)"
proof -
  let ?s0 = "\<lparr>sid = 0, sr = 0, sc = 0, slen = 3, sdir = H\<rparr>"
  let ?s1 = "\<lparr>sid = 1, sr = 2, sc = 0, slen = 3, sdir = H\<rparr>"
  let ?s2 = "\<lparr>sid = 2, sr = 0, sc = 1, slen = 3, sdir = V\<rparr>"
  have sl: "slots testEnv1 = [?s0, ?s1, ?s2]" by (simp add: testEnv1_def)
  have d1: "domainFor testEnv1 testState1 ?s1 = Inr [''DOG'', ''AXO'']" by code_simp
  have d2: "domainFor testEnv1 testState1 ?s2 = Inr [''AXO'']" by code_simp
  have u: "\<not> unassigned testState1 ?s0" "unassigned testState1 ?s1" "unassigned testState1 ?s2"
    "unassigned testState2 ?s0"
    by (simp_all add: unassigned_def testState1_def testState2_def truthy_def)
  have h1: "sorted_wrt (<) (map sid (slots testEnv1))" by (simp add: sl)
  have h2: "\<forall>s\<in>set (slots testEnv1). unassigned testState1 s \<longrightarrow>
      (\<exists>d. domainFor testEnv1 testState1 s = Inr d)"
    using d1 d2 u by (simp add: sl)
  have d0: "domainFor testEnv1 testState2 ?s0 = Inr []" by code_simp
  have k: "fixed testEnv1 (sid ?s2) = Some []"
    "crossingMap testEnv1 (sid ?s2) =
       Some [\<lparr>otherId = 0, idxThis = 0, idxOther = 1\<rparr>, \<lparr>otherId = 1, idxThis = 2, idxOther = 1\<rparr>]"
    by (simp_all add: testEnv1_def)
  from pickNext_mrv [of testEnv1 testState1 "[?s0, ?s1]" ?s2 "[]" "[]"
      "[\<lparr>otherId = 0, idxThis = 0, idxOther = 1\<rparr>, \<lparr>otherId = 1, idxThis = 2, idxOther = 1\<rparr>]"] h1 h2
  obtain r where r: "pickNext testEnv1 testState1 = Inr r" "r \<noteq> None"
    "\<forall>s. r = Some s \<longrightarrow> s \<in> set (slots testEnv1) \<and> unassigned testState1 s \<and>
       (\<forall>t\<in>set (slots testEnv1). unassigned testState1 t \<longrightarrow>
          sizeOf testEnv1 testState1 s \<le> sizeOf testEnv1 testState1 t \<and>
          (sizeOf testEnv1 testState1 t = sizeOf testEnv1 testState1 s \<longrightarrow> sid s \<le> sid t))"
    using u(2) sl by auto
  from r(2) obtain m where m: "r = Some m" by auto
  have sz: "sizeOf testEnv1 testState1 ?s1 = 2" "sizeOf testEnv1 testState1 ?s2 = 1"
    unfolding sizeOf_def d1 d2 by simp_all
  from r(3) m have "m \<in> {?s0, ?s1, ?s2}" "unassigned testState1 m"
    "sizeOf testEnv1 testState1 m \<le> sizeOf testEnv1 testState1 ?s2"
    using u(3) sl by auto
  then have "m = ?s2" using u(1) sz by auto
  with r(1) m have p1: "pickNext testEnv1 testState1 = Inr (Some ?s2)" by simp
  have p2: "pickNext testEnv1 testState2 = Inr (Some ?s0)"
    using pickNext_mrv [of testEnv1 testState2 "[]" ?s0 "[?s1, ?s2]" "[]" "[]"] sl u(4) d0
    by simp
  show ?thesis using p1 p2 d0 d1 d2 sz by simp
qed

subsection \<open>Slot extraction on a rectangular grid\<close>

lemma skipBlocked_spec:
  assumes "\<forall>i. c \<le> i \<and> i < n \<longrightarrow> (\<exists>x. get i = Inr x)" "c \<le> n"
  shows "\<exists>k. skipBlocked get n c = Inr k \<and> c \<le> k \<and> k \<le> n \<and>
           (\<forall>i. c \<le> i \<and> i < k \<longrightarrow> \<not> opn get i) \<and> (k < n \<longrightarrow> opn get k)"
  using assms
proof (induction get n c rule: skipBlocked.induct)
  case (1 get n c)
  show ?case
  proof (cases "c < n")
    case False
    then have "skipBlocked get n c = Inr c" by (simp add: skipBlocked.simps [of get n c])
    with False "1.prems"(2) show ?thesis by auto
  next
    case True
    with "1.prems" obtain x where x: "get c = Inr x" by auto
    show ?thesis
    proof (cases "blocked x")
      case False
      with True x show ?thesis
        by (auto simp: skipBlocked.simps [of get n c] opn_def)
    next
      case b: True
      have "\<exists>k. skipBlocked get n (c + 1) = Inr k \<and> c + 1 \<le> k \<and> k \<le> n \<and>
           (\<forall>i. c + 1 \<le> i \<and> i < k \<longrightarrow> \<not> opn get i) \<and> (k < n \<longrightarrow> opn get k)"
        using "1.prems" True by (intro "1.IH" [OF True x b]) auto
      then obtain k where k: "skipBlocked get n (c + 1) = Inr k" "c + 1 \<le> k" "k \<le> n"
        "\<forall>i. c + 1 \<le> i \<and> i < k \<longrightarrow> \<not> opn get i" "k < n \<longrightarrow> opn get k"
        by blast
      have "\<not> opn get c" using x b by (simp add: opn_def)
      with k(4) have "\<forall>i. c \<le> i \<and> i < k \<longrightarrow> \<not> opn get i"
        by (metis Suc_eq_plus1 Suc_leI le_neq_implies_less)
      with k True x b show ?thesis
        by (simp add: skipBlocked.simps [of get n c])
    qed
  qed
qed

lemma skipOpen_spec:
  assumes "\<forall>i. c \<le> i \<and> i < n \<longrightarrow> (\<exists>x. get i = Inr x)" "c \<le> n"
  shows "\<exists>k. skipOpen get n c = Inr k \<and> c \<le> k \<and> k \<le> n \<and>
           (\<forall>i. c \<le> i \<and> i < k \<longrightarrow> opn get i) \<and> (k < n \<longrightarrow> \<not> opn get k)"
  using assms
proof (induction get n c rule: skipOpen.induct)
  case (1 get n c)
  show ?case
  proof (cases "c < n")
    case False
    then have "skipOpen get n c = Inr c" by (simp add: skipOpen.simps [of get n c])
    with False "1.prems"(2) show ?thesis by auto
  next
    case True
    with "1.prems" obtain x where x: "get c = Inr x" by auto
    show ?thesis
    proof (cases "blocked x")
      case True
      with \<open>c < n\<close> x show ?thesis
        by (auto simp: skipOpen.simps [of get n c] opn_def)
    next
      case b: False
      have "\<exists>k. skipOpen get n (c + 1) = Inr k \<and> c + 1 \<le> k \<and> k \<le> n \<and>
           (\<forall>i. c + 1 \<le> i \<and> i < k \<longrightarrow> opn get i) \<and> (k < n \<longrightarrow> \<not> opn get k)"
        using "1.prems" True by (intro "1.IH" [OF True x b]) auto
      then obtain k where k: "skipOpen get n (c + 1) = Inr k" "c + 1 \<le> k" "k \<le> n"
        "\<forall>i. c + 1 \<le> i \<and> i < k \<longrightarrow> opn get i" "k < n \<longrightarrow> \<not> opn get k"
        by blast
      have "opn get c" using x b by (simp add: opn_def)
      with k(4) have "\<forall>i. c \<le> i \<and> i < k \<longrightarrow> opn get i"
        by (metis Suc_eq_plus1 Suc_leI le_neq_implies_less)
      with k True x b show ?thesis
        by (simp add: skipOpen.simps [of get n c])
    qed
  qed
qed

lemma run_split:
  assumes "c \<le> start" "start \<le> c'" "c' \<le> n"
    and blk: "\<forall>i. c \<le> i \<and> i < start \<longrightarrow> \<not> opn get i"
    and opn: "\<forall>i. start \<le> i \<and> i < c' \<longrightarrow> opn get i"
    and stop: "c' < n \<longrightarrow> \<not> opn get c'"
    and bnd: "c = 0 \<or> \<not> opn get c"
    and l: "1 \<le> l"
  shows "(c \<le> a \<and> lineRun get n a l) \<longleftrightarrow>
         ((a = start \<and> l = c' - start \<and> start < c') \<or> (c' \<le> a \<and> lineRun get n a l))"
proof
  assume "(a = start \<and> l = c' - start \<and> start < c') \<or> (c' \<le> a \<and> lineRun get n a l)"
  then show "c \<le> a \<and> lineRun get n a l"
  proof
    assume r: "c' \<le> a \<and> lineRun get n a l"
    with assms(1,2) show ?thesis by simp
  next
    assume e: "a = start \<and> l = c' - start \<and> start < c'"
    have left: "start = 0 \<or> \<not> opn get (start - 1)"
    proof (cases "start = c")
      case True
      with e opn have "opn get c" by simp
      with bnd True show ?thesis by simp
    next
      case False
      with assms(1) have "c \<le> start - 1" "start - 1 < start" by simp_all
      with blk show ?thesis by blast
    qed
    have "\<forall>k<l. opn get (start + k)" using e opn by simp
    moreover have "start + l = c'" using e by simp
    ultimately show ?thesis
      using e assms(1,3) left stop by (auto simp: lineRun_def)
  qed
next
  assume h: "c \<le> a \<and> lineRun get n a l"
  then have run: "a + l \<le> n" "\<forall>k<l. opn get (a + k)" "a = 0 \<or> \<not> opn get (a - 1)"
    "a + l = n \<or> \<not> opn get (a + l)"
    by (simp_all add: lineRun_def)
  from run(2) l have oa: "opn get a" by (metis add.right_neutral less_eq_Suc_le One_nat_def)
  show "(a = start \<and> l = c' - start \<and> start < c') \<or> (c' \<le> a \<and> lineRun get n a l)"
  proof (cases "c' \<le> a")
    case True
    with h show ?thesis by simp
  next
    case False
    then have ac: "a < c'" by simp
    have as: "start \<le> a" using blk oa h by (meson not_le)
    have "a = start"
    proof (rule ccontr)
      assume "a \<noteq> start"
      with as have "start \<le> a - 1" "a - 1 < c'" "a \<noteq> 0" using ac by simp_all
      with opn run(3) show False by blast
    qed
    have "a + l = c'"
    proof (rule ccontr)
      assume ne: "a + l \<noteq> c'"
      show False
      proof (cases "a + l < c'")
        case True
        then have "opn get (a + l)" using opn as by simp
        with run(4) True assms(3) show False by simp
      next
        case False
        with ne have "c' < a + l" by simp
        then have "c' - a < l" "a + (c' - a) = c'" using ac by simp_all
        with run(2) have "opn get c'" by metis
        moreover have "c' < n" using \<open>c' < a + l\<close> run(1) by simp
        ultimately show False using stop by simp
      qed
    qed
    with \<open>a = start\<close> l show ?thesis by auto
  qed
qed

lemma mkRuns_append:
  "mkRuns mk i (ps @ qs) = mkRuns mk i ps @ mkRuns mk (i + length ps) qs"
  by (induction mk i ps rule: mkRuns.induct) auto

lemma scanLine_spec:
  assumes "\<forall>i<n. \<exists>x. get i = Inr x" "c \<le> n" "c = 0 \<or> c = n \<or> \<not> opn get c"
  shows "\<exists>ps. scanLine get n mk c st = Inr (fst st @ mkRuns mk (snd st) ps, snd st + length ps) \<and>
           sorted_wrt (\<lambda>p q. fst p + snd p \<le> fst q) ps \<and>
           (\<forall>a l. (a, l) \<in> set ps \<longleftrightarrow> c \<le> a \<and> 2 \<le> l \<and> lineRun get n a l)"
  using assms
proof (induction get n mk c st rule: scanLine.induct)
  case (1 get n mk c st)
  show ?case
  proof (cases "c < n")
    case False
    with "1.prems" have "c = n" by simp
    have "scanLine get n mk c st = Inr st" using False by (simp add: scanLine.simps [of get n mk c])
    moreover have "\<not> (c \<le> a \<and> 2 \<le> l \<and> lineRun get n a l)" for a l
      using \<open>c = n\<close> by (auto simp: lineRun_def)
    ultimately show ?thesis by (intro exI [of _ "[]"]) simp
  next
    case True
    from skipBlocked_spec [of c n get] "1.prems" obtain start where
      s: "skipBlocked get n c = Inr start" "c \<le> start" "start \<le> n"
        "\<forall>i. c \<le> i \<and> i < start \<longrightarrow> \<not> opn get i" "start < n \<longrightarrow> opn get start"
      by auto
    from skipOpen_spec [of start n get] "1.prems"(1) s(3) obtain c' where
      e: "skipOpen get n start = Inr c'" "start \<le> c'" "c' \<le> n"
        "\<forall>i. start \<le> i \<and> i < c' \<longrightarrow> opn get i" "c' < n \<longrightarrow> \<not> opn get c'"
      by auto
    define st' where "st' = (if 2 \<le> c' - start
                     then (fst st @ [mk (snd st) start (c' - start)], snd st + 1)
                     else st)"
    have step: "scanLine get n mk c st = scanLine get n mk c' st'"
      using True s(1) e(1) by (simp add: scanLine.simps [of get n mk c] st'_def)
    have "\<exists>ps. scanLine get n mk c' st' =
             Inr (fst st' @ mkRuns mk (snd st') ps, snd st' + length ps) \<and>
           sorted_wrt (\<lambda>p q. fst p + snd p \<le> fst q) ps \<and>
           (\<forall>a l. (a, l) \<in> set ps \<longleftrightarrow> c' \<le> a \<and> 2 \<le> l \<and> lineRun get n a l)"
      unfolding st'_def
      using "1.prems"(1) e(3,5) by (intro "1.IH" [OF True s(1) e(1)]) auto
    then obtain ps where ps: "scanLine get n mk c' st' =
             Inr (fst st' @ mkRuns mk (snd st') ps, snd st' + length ps)"
      "sorted_wrt (\<lambda>p q. fst p + snd p \<le> fst q) ps"
      "\<forall>a l. (a, l) \<in> set ps \<longleftrightarrow> c' \<le> a \<and> 2 \<le> l \<and> lineRun get n a l"
      by blast
    have bnd: "c = 0 \<or> \<not> opn get c" using "1.prems"(3) True by auto
    have split: "(c \<le> a \<and> lineRun get n a l) \<longleftrightarrow>
         ((a = start \<and> l = c' - start \<and> start < c') \<or> (c' \<le> a \<and> lineRun get n a l))"
      if "2 \<le> l" for a l
      using that by (intro run_split [OF s(2) e(2,3) s(4) e(4,5) bnd]) simp
    define qs where "qs = (if 2 \<le> c' - start then [(start, c' - start)] else []) @ ps"
    have 1: "scanLine get n mk c st = Inr (fst st @ mkRuns mk (snd st) qs, snd st + length qs)"
      unfolding step ps(1) by (simp add: st'_def qs_def)
    have 2: "sorted_wrt (\<lambda>p q. fst p + snd p \<le> fst q) qs"
      using ps(2,3) e(2) by (auto simp: qs_def)
    have 3: "(a, l) \<in> set qs \<longleftrightarrow> c \<le> a \<and> 2 \<le> l \<and> lineRun get n a l" for a l
    proof (cases "2 \<le> l")
      case False
      then show ?thesis using ps(3) by (auto simp: qs_def)
    next
      case True
      show ?thesis using split [OF True] ps(3) True by (auto simp: qs_def)
    qed
    show ?thesis using 1 2 3 by blast
  qed
qed

lemma mkRuns_sid:
  "(\<And>j a l. sid (mk j a l) = j) \<Longrightarrow> map sid (mkRuns mk i ps) = [i..<i + length ps]"
proof (induction ps arbitrary: i)
  case Nil
  show ?case by simp
next
  case (Cons p ps)
  obtain a l where p: "p = (a, l)" by (cases p)
  show ?case using Cons unfolding p by (simp add: upt_conv_Cons del: upt_Suc)
qed

lemma mkRuns_set_sub:
  "s \<in> set (mkRuns mk i ps) \<Longrightarrow> \<exists>j a l. (a, l) \<in> set ps \<and> s = mk j a l"
proof (induction ps arbitrary: i)
  case Nil
  then show ?case by simp
next
  case (Cons p ps)
  obtain a l where p: "p = (a, l)" by (cases p)
  from Cons.prems have "s = mk i a l \<or> s \<in> set (mkRuns mk (Suc i) ps)"
    unfolding p by simp
  then show ?case
  proof
    assume "s = mk i a l"
    then show ?thesis unfolding p by (intro exI [of _ i] exI [of _ a] exI [of _ l]) simp
  next
    assume "s \<in> set (mkRuns mk (Suc i) ps)"
    from Cons.IH [OF this] show ?thesis by auto
  qed
qed

lemma mkRuns_set_sup:
  "(a, l) \<in> set ps \<Longrightarrow> \<exists>j. mk j a l \<in> set (mkRuns mk i ps)"
proof (induction ps arbitrary: i)
  case Nil
  then show ?case by simp
next
  case (Cons p ps)
  obtain a' l' where p: "p = (a', l')" by (cases p)
  from Cons.prems have "(a, l) = (a', l') \<or> (a, l) \<in> set ps" unfolding p by simp
  then show ?case
  proof
    assume "(a, l) = (a', l')"
    then show ?thesis unfolding p by (intro exI [of _ i]) simp
  next
    assume "(a, l) \<in> set ps"
    from Cons.IH [OF this, of "Suc i"] obtain j where "mk j a l \<in> set (mkRuns mk (Suc i) ps)" ..
    then show ?thesis unfolding p by (intro exI [of _ j]) simp
  qed
qed

lemma mkRuns_sorted:
  assumes "sorted_wrt R ps"
    and "\<And>p q j j'. R p q \<Longrightarrow> B (mk j (fst p) (snd p)) (mk j' (fst q) (snd q))"
  shows "sorted_wrt B (mkRuns mk i ps)"
  using assms(1)
proof (induction ps arbitrary: i)
  case Nil
  show ?case by simp
next
  case (Cons p ps)
  obtain a l where p: "p = (a, l)" by (cases p)
  have "B (mk i a l) t" if "t \<in> set (mkRuns mk (Suc i) ps)" for t
  proof -
    from mkRuns_set_sub [OF that] obtain j a' l' where q: "(a', l') \<in> set ps" "t = mk j a' l'"
      by blast
    with Cons.prems p have "R (a, l) (a', l')" by simp
    from assms(2) [OF this, of i j] q(2) show ?thesis by simp
  qed
  with Cons show ?case unfolding p by simp
qed

lemma opn_cellAt: "opn (cellAt g r) c = openAt g (r, c)"
  by (auto simp: opn_def cellAt_def openAt_def)

lemma opn_cellAt_col: "opn (\<lambda>r. cellAt g r c) r = openAt g (r, c)"
  by (auto simp: opn_def cellAt_def openAt_def)

lemma lineRun_H:
  assumes "r < length g" "length (g ! r) = C" "1 \<le> l"
  shows "lineRun (cellAt g r) C a l \<longleftrightarrow> isRun g (mkH r i a l)"
proof -
  have last: "openAt g (r, a + (l - 1)) \<Longrightarrow> a + l \<le> C"
    using assms by (auto simp: openAt_def)
  have out: "a + l = C \<Longrightarrow> \<not> openAt g (r, a + l)"
    using assms by (simp add: openAt_def)
  have "l - 1 < l" using assms(3) by simp
  then show ?thesis
    unfolding lineRun_def isRun_def opn_cellAt
    using last out by (auto simp: mkH_def cellOf_def)
qed

lemma lineRun_V:
  assumes "\<forall>row\<in>set g. length row = C" "c < C" "1 \<le> l"
  shows "lineRun (\<lambda>r. cellAt g r c) (length g) a l \<longleftrightarrow> isRun g (mkV c i a l)"
proof -
  have last: "openAt g (a + (l - 1), c) \<Longrightarrow> a + l \<le> length g"
    using assms by (auto simp: openAt_def)
  have out: "a + l = length g \<Longrightarrow> \<not> openAt g (a + l, c)"
    using assms by (simp add: openAt_def)
  have "l - 1 < l" using assms(3) by simp
  then show ?thesis
    unfolding lineRun_def isRun_def opn_cellAt_col
    using last out by (auto simp: mkV_def cellOf_def)
qed

lemma upt_join: "[i..<i + a] @ [i + a..<i + (a + b)] = [i..<i + (a + b)]"
  using upt_add_eq_append [of i "i + a" b] by (simp add: add.assoc)

lemma isRun_cong: "sameRun s t \<Longrightarrow> isRun g s = isRun g t"
  by (cases "sdir t") (auto simp: sameRun_def isRun_def cellOf_def)

lemma scanLine_slots:
  assumes defd: "\<forall>i<n. \<exists>x. get i = Inr x"
    and mk_sid: "\<And>j a l. sid (mk j a l) = j"
    and mk_run: "\<And>j a l. 1 \<le> l \<Longrightarrow> lineRun get n a l \<longleftrightarrow> isRun g (mk j a l)"
    and mk_ord: "\<And>j j' a l a' l'. a + l \<le> a' \<Longrightarrow> 2 \<le> l \<Longrightarrow> scanBefore (mk j a l) (mk j' a' l')"
  shows "\<exists>news. scanLine get n mk 0 st = Inr (fst st @ news, snd st + length news) \<and>
           map sid news = [snd st..<snd st + length news] \<and>
           sorted_wrt scanBefore news \<and>
           (\<forall>s\<in>set news. \<exists>j a l. s = mk j a l \<and> 2 \<le> l \<and> isRun g s) \<and>
           (\<forall>a l. 2 \<le> l \<and> lineRun get n a l \<longrightarrow> (\<exists>j. mk j a l \<in> set news))"
proof -
  from scanLine_spec [OF defd, of 0 mk st] obtain ps where
    ps: "scanLine get n mk 0 st = Inr (fst st @ mkRuns mk (snd st) ps, snd st + length ps)"
      "sorted_wrt (\<lambda>p q. fst p + snd p \<le> fst q) ps"
      "\<forall>a l. (a, l) \<in> set ps \<longleftrightarrow> 0 \<le> a \<and> 2 \<le> l \<and> lineRun get n a l"
    by auto
  let ?news = "mkRuns mk (snd st) ps"
  have len: "length ?news = length ps"
    using mkRuns_sid [of mk "snd st" ps, OF mk_sid] by (metis length_map length_upt add_diff_cancel_left')
  have 1: "map sid ?news = [snd st..<snd st + length ?news]"
    unfolding len by (rule mkRuns_sid) (rule mk_sid)
  have "sorted_wrt (\<lambda>p q. fst p + snd p \<le> fst q \<and> 2 \<le> snd p) ps"
    using ps(2) by (rule sorted_wrt_mono_rel [rotated]) (use ps(3) in auto)
  then have 2: "sorted_wrt scanBefore ?news"
    by (rule mkRuns_sorted) (simp add: mk_ord)
  have 3: "\<exists>j a l. s = mk j a l \<and> 2 \<le> l \<and> isRun g s" if "s \<in> set ?news" for s
  proof -
    from mkRuns_set_sub [OF that] obtain j a l where q: "(a, l) \<in> set ps" "s = mk j a l"
      by blast
    with ps(3) have "2 \<le> l" "lineRun get n a l" by auto
    with mk_run [of l a j] q(2) show ?thesis by auto
  qed
  have 4: "\<exists>j. mk j a l \<in> set ?news" if "2 \<le> l \<and> lineRun get n a l" for a l
    using that ps(3) by (intro mkRuns_set_sup) simp
  show ?thesis using ps(1) 1 2 3 4 unfolding len [symmetric] by blast
qed

lemma isRun_inside:
  assumes "isRun g s" "1 \<le> slen s"
  shows "sr s < length g \<and> sc s < length (g ! sr s)"
proof -
  from assms have "openAt g (cellOf s 0)" by (auto simp: isRun_def)
  then show ?thesis by (cases "sdir s") (auto simp: openAt_def cellOf_def)
qed

lemma hRows_spec:
  assumes "\<forall>row\<in>set g. length row = C" "r \<le> length g"
  shows "\<exists>news. hRows g r st = Inr (fst st @ news, snd st + length news) \<and>
           map sid news = [snd st..<snd st + length news] \<and>
           sorted_wrt scanBefore news \<and>
           (\<forall>s\<in>set news. sdir s = H \<and> r \<le> sr s \<and> 2 \<le> slen s \<and> isRun g s) \<and>
           (\<forall>s. sdir s = H \<and> r \<le> sr s \<and> 2 \<le> slen s \<and> isRun g s \<longrightarrow> (\<exists>t\<in>set news. sameRun t s))"
  using assms
proof (induction g r st rule: hRows.induct)
  case (1 g r st)
  show ?case
  proof (cases "r < length g")
    case False
    then have "hRows g r st = Inr st" by (simp add: hRows.simps [of g r])
    moreover have "\<not> (r \<le> sr s \<and> 2 \<le> slen s \<and> isRun g s)" for s
      using isRun_inside [of g s] False by auto
    ultimately show ?thesis by (intro exI [of _ "[]"]) simp
  next
    case True
    then have "0 < length g" by auto
    with True have "g ! 0 \<in> set g" "g ! r \<in> set g" by (simp_all only: nth_mem)
    then have g0: "length (g ! 0) = C" "length (g ! r) = C"
      using "1.prems"(1) by simp_all
    have defd: "\<forall>i<C. \<exists>x. cellAt g r i = Inr x"
      using True g0 by (simp add: cellAt_def)
    have ord: "scanBefore (mkH r j a l) (mkH r j' a' l')" if "a + l \<le> a'" "2 \<le> l" for j j' a l a' l'
      using that by (simp add: scanBefore_def mkH_def)
    from scanLine_slots [of C "cellAt g r" "mkH r" g st, OF defd _ _ ord]
    obtain row where row: "scanLine (cellAt g r) C (mkH r) 0 st = Inr (fst st @ row, snd st + length row)"
      "map sid row = [snd st..<snd st + length row]" "sorted_wrt scanBefore row"
      "\<forall>s\<in>set row. \<exists>j a l. s = mkH r j a l \<and> 2 \<le> l \<and> isRun g s"
      "\<forall>a l. 2 \<le> l \<and> lineRun (cellAt g r) C a l \<longrightarrow> (\<exists>j. mkH r j a l \<in> set row)"
      using lineRun_H [OF True g0(2)] by (auto simp: mkH_def)
    define st' where "st' = (fst st @ row, snd st + length row)"
    have step: "hRows g r st = hRows g (r + 1) st'"
      using True row(1) g0 by (simp add: hRows.simps [of g r] st'_def)
    from "1.IH" [OF True, of st'] row(1) g0 "1.prems"(1) True
    obtain rest where rest: "hRows g (r + 1) st' = Inr (fst st' @ rest, snd st' + length rest)"
      "map sid rest = [snd st'..<snd st' + length rest]" "sorted_wrt scanBefore rest"
      "\<forall>s\<in>set rest. sdir s = H \<and> r + 1 \<le> sr s \<and> 2 \<le> slen s \<and> isRun g s"
      "\<forall>s. sdir s = H \<and> r + 1 \<le> sr s \<and> 2 \<le> slen s \<and> isRun g s \<longrightarrow> (\<exists>t\<in>set rest. sameRun t s)"
      by (auto simp: st'_def)
    have rowH: "sdir s = H \<and> sr s = r \<and> 2 \<le> slen s \<and> isRun g s" if "s \<in> set row" for s
      using row(4) that by (fastforce simp: mkH_def)
    have 1: "hRows g r st = Inr (fst st @ (row @ rest), snd st + length (row @ rest))"
      unfolding step rest(1) by (simp add: st'_def)
    have 2: "map sid (row @ rest) = [snd st..<snd st + length (row @ rest)]"
      using row(2) rest(2) by (simp add: st'_def upt_join add.assoc)
    have 3: "sorted_wrt scanBefore (row @ rest)"
      using row(3) rest(3,4) rowH by (auto simp: sorted_wrt_append scanBefore_def)
    have 4: "\<forall>s\<in>set (row @ rest). sdir s = H \<and> r \<le> sr s \<and> 2 \<le> slen s \<and> isRun g s"
      using rowH rest(4) by auto
    have 5: "\<exists>t\<in>set (row @ rest). sameRun t s"
      if s: "sdir s = H \<and> r \<le> sr s \<and> 2 \<le> slen s \<and> isRun g s" for s
    proof (cases "sr s = r")
      case False
      with s rest(5) show ?thesis by auto
    next
      case eq: True
      have sm: "sameRun (mkH r j (sc s) (slen s)) s" for j
        using s eq by (simp add: sameRun_def mkH_def)
      from s have "isRun g (mkH r 0 (sc s) (slen s))" using isRun_cong [OF sm] by simp
      with lineRun_H [OF True g0(2), of "slen s" "sc s" 0] s
      have "lineRun (cellAt g r) C (sc s) (slen s)" by simp
      with row(5) s obtain j where "mkH r j (sc s) (slen s) \<in> set row" by blast
      with sm show ?thesis by auto
    qed
    show ?thesis using 1 2 3 4 5 by blast
  qed
qed

lemma vCols_spec:
  assumes "g \<noteq> []" "\<forall>row\<in>set g. length row = C" "c \<le> C"
  shows "\<exists>news. vCols g c st = Inr (fst st @ news, snd st + length news) \<and>
           map sid news = [snd st..<snd st + length news] \<and>
           sorted_wrt scanBefore news \<and>
           (\<forall>s\<in>set news. sdir s = V \<and> c \<le> sc s \<and> 2 \<le> slen s \<and> isRun g s) \<and>
           (\<forall>s. sdir s = V \<and> c \<le> sc s \<and> 2 \<le> slen s \<and> isRun g s \<longrightarrow> (\<exists>t\<in>set news. sameRun t s))"
  using assms
proof (induction g c st rule: vCols.induct)
  case (1 g c st)
  from "1.prems"(1) obtain row0 rows where g: "g = row0 # rows" by (cases g) auto
  with "1.prems"(2) have r0: "length row0 = C" by simp
  show ?case
  proof (cases "c < C")
    case False
    then have "vCols g c st = Inr st"
      by (subst vCols.simps) (use g r0 in simp)
    moreover have "\<not> (c \<le> sc s \<and> 2 \<le> slen s \<and> isRun g s)" for s
    proof
      assume a: "c \<le> sc s \<and> 2 \<le> slen s \<and> isRun g s"
      with isRun_inside [of g s] have "sr s < length g" "sc s < length (g ! sr s)" by auto
      moreover from this "1.prems"(2) have "length (g ! sr s) = C" by simp
      ultimately show False using a False by simp
    qed
    ultimately show ?thesis by (intro exI [of _ "[]"]) simp
  next
    case True
    have defd: "\<forall>i<length g. \<exists>x. cellAt g i c = Inr x"
      using True "1.prems"(2) by (simp add: cellAt_def)
    have ord: "scanBefore (mkV c j a l) (mkV c j' a' l')" if "a + l \<le> a'" "2 \<le> l" for j j' a l a' l'
      using that by (simp add: scanBefore_def mkV_def)
    from scanLine_slots [of "length g" "\<lambda>r. cellAt g r c" "mkV c" g st, OF defd _ _ ord]
    obtain col where col: "scanLine (\<lambda>r. cellAt g r c) (length g) (mkV c) 0 st =
          Inr (fst st @ col, snd st + length col)"
      "map sid col = [snd st..<snd st + length col]" "sorted_wrt scanBefore col"
      "\<forall>s\<in>set col. \<exists>j a l. s = mkV c j a l \<and> 2 \<le> l \<and> isRun g s"
      "\<forall>a l. 2 \<le> l \<and> lineRun (\<lambda>r. cellAt g r c) (length g) a l \<longrightarrow> (\<exists>j. mkV c j a l \<in> set col)"
      using lineRun_V [OF "1.prems"(2) True] by (auto simp: mkV_def)
    define st' where "st' = (fst st @ col, snd st + length col)"
    have step: "vCols g c st = vCols g (c + 1) st'"
      by (subst vCols.simps) (use True col(1) g r0 in \<open>simp add: st'_def\<close>)
    have "c < length row0" using True r0 by simp
    from "1.IH" [OF g this, of st'] col(1) "1.prems"(1,2) True
    obtain rest where rest: "vCols g (c + 1) st' = Inr (fst st' @ rest, snd st' + length rest)"
      "map sid rest = [snd st'..<snd st' + length rest]" "sorted_wrt scanBefore rest"
      "\<forall>s\<in>set rest. sdir s = V \<and> c + 1 \<le> sc s \<and> 2 \<le> slen s \<and> isRun g s"
      "\<forall>s. sdir s = V \<and> c + 1 \<le> sc s \<and> 2 \<le> slen s \<and> isRun g s \<longrightarrow> (\<exists>t\<in>set rest. sameRun t s)"
      by (auto simp: st'_def)
    have colV: "sdir s = V \<and> sc s = c \<and> 2 \<le> slen s \<and> isRun g s" if "s \<in> set col" for s
      using col(4) that by (fastforce simp: mkV_def)
    have 1: "vCols g c st = Inr (fst st @ (col @ rest), snd st + length (col @ rest))"
      unfolding step rest(1) by (simp add: st'_def)
    have 2: "map sid (col @ rest) = [snd st..<snd st + length (col @ rest)]"
      using col(2) rest(2) by (simp add: st'_def upt_join add.assoc)
    have 3: "sorted_wrt scanBefore (col @ rest)"
      using col(3) rest(3,4) colV by (auto simp: sorted_wrt_append scanBefore_def)
    have 4: "\<forall>s\<in>set (col @ rest). sdir s = V \<and> c \<le> sc s \<and> 2 \<le> slen s \<and> isRun g s"
      using colV rest(4) by auto
    have 5: "\<exists>t\<in>set (col @ rest). sameRun t s"
      if s: "sdir s = V \<and> c \<le> sc s \<and> 2 \<le> slen s \<and> isRun g s" for s
    proof (cases "sc s = c")
      case False
      with s rest(5) show ?thesis by auto
    next
      case eq: True
      have sm: "sameRun (mkV c j (sr s) (slen s)) s" for j
        using s eq by (simp add: sameRun_def mkV_def)
      from s have "isRun g (mkV c 0 (sr s) (slen s))" using isRun_cong [OF sm] by simp
      with lineRun_V [OF "1.prems"(2) True, of "slen s" "sr s" 0] s
      have "lineRun (\<lambda>r. cellAt g r c) (length g) (sr s) (slen s)" by simp
      with col(5) s obtain j where "mkV c j (sr s) (slen s) \<in> set col" by blast
      with sm show ?thesis by auto
    qed
    show ?thesis using 1 2 3 4 5 by blast
  qed
qed

lemma computeSlots_spec:
  assumes "g \<noteq> []" "\<forall>row\<in>set g. length row = C"
  shows "\<exists>ss. computeSlots g = Inr ss \<and>
           map sid ss = [0..<length ss] \<and>
           sorted_wrt scanBefore ss \<and>
           (\<forall>s\<in>set ss. 2 \<le> slen s \<and> isRun g s) \<and>
           (\<forall>s. 2 \<le> slen s \<and> isRun g s \<longrightarrow> (\<exists>t\<in>set ss. sameRun t s))"
proof -
  from hRows_spec [OF assms(2), of 0 "([], 0)"]
  obtain hs where hs: "hRows g 0 ([], 0) = Inr (hs, length hs)"
    "map sid hs = [0..<length hs]" "sorted_wrt scanBefore hs"
    "\<forall>s\<in>set hs. sdir s = H \<and> 2 \<le> slen s \<and> isRun g s"
    "\<forall>s. sdir s = H \<and> 2 \<le> slen s \<and> isRun g s \<longrightarrow> (\<exists>t\<in>set hs. sameRun t s)"
    by auto
  from vCols_spec [OF assms, of 0 "(hs, length hs)"]
  obtain vs where vs: "vCols g 0 (hs, length hs) = Inr (hs @ vs, length hs + length vs)"
    "map sid vs = [length hs..<length hs + length vs]" "sorted_wrt scanBefore vs"
    "\<forall>s\<in>set vs. sdir s = V \<and> 2 \<le> slen s \<and> isRun g s"
    "\<forall>s. sdir s = V \<and> 2 \<le> slen s \<and> isRun g s \<longrightarrow> (\<exists>t\<in>set vs. sameRun t s)"
    by auto
  have 1: "computeSlots g = Inr (hs @ vs)" by (simp add: computeSlots_def hs(1) vs(1))
  have 2: "map sid (hs @ vs) = [0..<length (hs @ vs)]"
    using hs(2) vs(2) upt_join [of 0 "length hs" "length vs"] by simp
  have 3: "sorted_wrt scanBefore (hs @ vs)"
    using hs(3,4) vs(3,4) by (auto simp: sorted_wrt_append scanBefore_def)
  have 4: "\<forall>s\<in>set (hs @ vs). 2 \<le> slen s \<and> isRun g s" using hs(4) vs(4) by auto
  have 5: "\<exists>t\<in>set (hs @ vs). sameRun t s" if "2 \<le> slen s \<and> isRun g s" for s
    using that hs(5) vs(5) by (cases "sdir s") auto
  show ?thesis using 1 2 3 4 5 by blast
qed

text \<open>
  C3: on a grid with at least one row whose rows all have the same length,
  \<^verbatim>\<open>computeSlots\<close> returns a list of slots numbered 0, 1, 2, ... in the order of the
  list; the list is in the order of discovery, the horizontal runs by row and column
  first and the vertical runs by column and row after them; every slot is a maximal run
  of open cells of length at least 2, and every such run is the run of a slot of the
  list. Runs of fewer than two cells yield no slot, and the list is empty when there is
  no longer run.
\<close>

theorem computeSlots_runs:
  "g \<noteq> [] \<Longrightarrow> rectangular g \<Longrightarrow>
     \<exists>ss. computeSlots g = Inr ss \<and>
       map sid ss = [0..<length ss] \<and>
       sorted_wrt scanBefore ss \<and>
       (\<forall>s\<in>set ss. 2 \<le> slen s \<and> isRun g s) \<and>
       (\<forall>s. 2 \<le> slen s \<and> isRun g s \<longrightarrow> (\<exists>t\<in>set ss. sameRun t s)) \<and>
       ((\<forall>s. isRun g s \<longrightarrow> slen s < 2) \<longrightarrow> ss = [])"
proof -
  assume g: "g \<noteq> []" and re: "rectangular g"
  from re have "\<forall>row\<in>set g. length row = length (hd g)"
    unfolding rectangular_def list_all_iff .
  from computeSlots_spec [OF g this] obtain ss where
    ss: "computeSlots g = Inr ss" "map sid ss = [0..<length ss]" "sorted_wrt scanBefore ss"
      "\<forall>s\<in>set ss. 2 \<le> slen s \<and> isRun g s"
      "\<forall>s. 2 \<le> slen s \<and> isRun g s \<longrightarrow> (\<exists>t\<in>set ss. sameRun t s)"
    by blast
  have "ss = []" if "\<forall>s. isRun g s \<longrightarrow> slen s < 2"
  proof (cases ss)
    case Nil
    then show ?thesis .
  next
    case (Cons s rest)
    with ss(4) that have "2 \<le> slen s" "slen s < 2" by auto
    then show ?thesis by simp
  qed
  with ss show ?thesis by blast
qed

theorem computeSlots_runs_witness:
  "testGrid1 \<noteq> [] \<and> rectangular testGrid1 \<and>
   computeSlots testGrid1 =
     Inr [\<lparr>sid = 0, sr = 0, sc = 0, slen = 3, sdir = H\<rparr>,
          \<lparr>sid = 1, sr = 2, sc = 0, slen = 3, sdir = H\<rparr>,
          \<lparr>sid = 2, sr = 0, sc = 1, slen = 3, sdir = V\<rparr>] \<and>
   isRun testGrid1 \<lparr>sid = 2, sr = 0, sc = 1, slen = 3, sdir = V\<rparr> \<and>
   scanBefore \<lparr>sid = 1, sr = 2, sc = 0, slen = 3, sdir = H\<rparr>
     \<lparr>sid = 2, sr = 0, sc = 1, slen = 3, sdir = V\<rparr>"
proof -
  have ne: "testGrid1 \<noteq> []" by (simp add: testGrid1_def)
  have re: "rectangular testGrid1" by (simp add: testGrid1_def rectangular_def)
  have cs: "computeSlots testGrid1 =
     Inr [\<lparr>sid = 0, sr = 0, sc = 0, slen = 3, sdir = H\<rparr>,
          \<lparr>sid = 1, sr = 2, sc = 0, slen = 3, sdir = H\<rparr>,
          \<lparr>sid = 2, sr = 0, sc = 1, slen = 3, sdir = V\<rparr>]"
    by code_simp
  from computeSlots_runs [OF ne re] cs
  have "isRun testGrid1 \<lparr>sid = 2, sr = 0, sc = 1, slen = 3, sdir = V\<rparr>"
    "sorted_wrt scanBefore [\<lparr>sid = 0, sr = 0, sc = 0, slen = 3, sdir = H\<rparr>,
          \<lparr>sid = 1, sr = 2, sc = 0, slen = 3, sdir = H\<rparr>,
          \<lparr>sid = 2, sr = 0, sc = 1, slen = 3, sdir = V\<rparr>]"
    by auto
  with ne re cs show ?thesis by simp
qed

subsection \<open>Slot extraction on any grid\<close>

lemma skipBlocked_defined:
  "skipBlocked get n c = Inr k \<Longrightarrow> c \<le> i \<Longrightarrow> i < k \<Longrightarrow> \<exists>x. get i = Inr x"
proof (induction get n c rule: skipBlocked.induct)
  case (1 get n c)
  have cn: "c < n"
  proof (rule ccontr)
    assume "\<not> c < n"
    with "1.prems" show False by (simp add: skipBlocked.simps [of get n c])
  qed
  with "1.prems" obtain x where x: "get c = Inr x"
    by (cases "get c") (auto simp: skipBlocked.simps [of get n c])
  show ?case
  proof (cases "i = c")
    case True
    with x show ?thesis by simp
  next
    case False
    have b: "blocked x"
    proof (rule ccontr)
      assume "\<not> blocked x"
      with cn x "1.prems" show False by (simp add: skipBlocked.simps [of get n c])
    qed
    with cn x "1.prems" have "skipBlocked get n (c + 1) = Inr k"
      by (simp add: skipBlocked.simps [of get n c])
    from "1.IH" [OF cn x b this] False "1.prems" show ?thesis by simp
  qed
qed

lemma skipOpen_defined:
  "skipOpen get n c = Inr k \<Longrightarrow> c \<le> i \<Longrightarrow> i < k \<Longrightarrow> \<exists>x. get i = Inr x"
proof (induction get n c rule: skipOpen.induct)
  case (1 get n c)
  have cn: "c < n"
  proof (rule ccontr)
    assume "\<not> c < n"
    with "1.prems" show False by (simp add: skipOpen.simps [of get n c])
  qed
  with "1.prems" obtain x where x: "get c = Inr x"
    by (cases "get c") (auto simp: skipOpen.simps [of get n c])
  show ?case
  proof (cases "i = c")
    case True
    with x show ?thesis by simp
  next
    case False
    have b: "\<not> blocked x"
    proof
      assume "blocked x"
      with cn x "1.prems" show False by (simp add: skipOpen.simps [of get n c])
    qed
    with cn x "1.prems" have "skipOpen get n (c + 1) = Inr k"
      by (simp add: skipOpen.simps [of get n c])
    from "1.IH" [OF cn x b this] False "1.prems" show ?thesis by simp
  qed
qed

lemma skipOpen_stop:
  "skipOpen get n c = Inr k \<Longrightarrow> k < n \<Longrightarrow> \<exists>x. get k = Inr x"
proof (induction get n c rule: skipOpen.induct)
  case (1 get n c)
  show ?case
  proof (cases "c < n")
    case True
    with "1.prems" obtain x where x: "get c = Inr x"
      by (cases "get c") (auto simp: skipOpen.simps [of get n c])
    show ?thesis
    proof (cases "blocked x")
      case False
      with \<open>c < n\<close> x "1.prems" have "skipOpen get n (c + 1) = Inr k"
        by (simp add: skipOpen.simps [of get n c])
      with "1.IH" [OF \<open>c < n\<close> x False] "1.prems" show ?thesis by simp
    next
      case True
      with \<open>c < n\<close> x "1.prems" show ?thesis
        by (simp add: skipOpen.simps [of get n c])
    qed
  next
    case False
    with "1.prems" show ?thesis by (simp add: skipOpen.simps [of get n c])
  qed
qed

lemma scanLine_defined:
  "scanLine get n mk c st = Inr st' \<Longrightarrow> c \<le> i \<Longrightarrow> i < n \<Longrightarrow> \<exists>x. get i = Inr x"
proof (induction get n mk c st rule: scanLine.induct)
  case (1 get n mk c st)
  from "1.prems" have cn: "c < n" by simp
  with "1.prems"(1) obtain start where s: "skipBlocked get n c = Inr start"
    by (cases "skipBlocked get n c") (auto simp: scanLine.simps [of get n mk c])
  with cn "1.prems"(1) obtain c' where e: "skipOpen get n start = Inr c'"
    by (cases "skipOpen get n start") (auto simp: scanLine.simps [of get n mk c])
  define st1 where "st1 = (if 2 \<le> c' - start
                     then (fst st @ [mk (snd st) start (c' - start)], snd st + 1)
                     else st)"
  have rec: "scanLine get n mk c' st1 = Inr st'"
    using cn s e "1.prems"(1) by (simp add: scanLine.simps [of get n mk c] st1_def)
  consider "i < start" | "start \<le> i" "i < c'" | "c' \<le> i" by linarith
  then show ?case
  proof cases
    case 1
    with skipBlocked_defined [OF s "1.prems"(2)] show ?thesis by simp
  next
    case 2
    with skipOpen_defined [OF e] show ?thesis by simp
  next
    case 3
    from "1.IH" [OF cn s e rec [unfolded st1_def] 3 "1.prems"(3)] show ?thesis .
  qed
qed

lemma cellAt_defined: "cellAt g r i = Inr x \<Longrightarrow> r < length g \<and> i < length (g ! r)"
  by (simp add: cellAt_def split: if_splits)

lemma hRows_defined:
  "hRows g r st = Inr st' \<Longrightarrow> r \<le> r' \<Longrightarrow> r' < length g \<Longrightarrow> length (g ! 0) \<le> length (g ! r')"
proof (induction g r st rule: hRows.induct)
  case (1 g r st)
  from "1.prems" have rl: "r < length g" by simp
  with "1.prems"(1) obtain st1 where
    row: "scanLine (cellAt g r) (length (g ! 0)) (mkH r) 0 st = Inr st1"
    by (cases "scanLine (cellAt g r) (length (g ! 0)) (mkH r) 0 st")
       (auto simp: hRows.simps [of g r])
  with rl "1.prems"(1) have rec: "hRows g (r + 1) st1 = Inr st'"
    by (simp add: hRows.simps [of g r])
  show ?case
  proof (cases "r' = r")
    case False
    with "1.IH" [OF rl row rec] "1.prems" show ?thesis by simp
  next
    case True
    show ?thesis
    proof (rule ccontr)
      assume "\<not> length (g ! 0) \<le> length (g ! r')"
      then have lt: "length (g ! r) < length (g ! 0)" using True by simp
      from scanLine_defined [OF row _ lt] obtain x where "cellAt g r (length (g ! r)) = Inr x"
        by auto
      from cellAt_defined [OF this] show False by simp
    qed
  qed
qed

lemma computeSlots_ok:
  assumes "computeSlots g = Inr ss"
  shows "g \<noteq> [] \<and> (\<forall>row\<in>set g. length (hd g) \<le> length row)"
proof -
  from assms obtain st where h: "hRows g 0 ([], 0) = Inr st"
    by (cases "hRows g 0 ([], 0)") (auto simp: computeSlots_def)
  with assms obtain st' where v: "vCols g 0 st = Inr st'"
    by (cases "vCols g 0 st") (auto simp: computeSlots_def)
  have ne: "g \<noteq> []"
  proof
    assume "g = []"
    with v show False by (simp add: vCols.simps [of "[]" 0])
  qed
  have "length (hd g) \<le> length row" if "row \<in> set g" for row
  proof -
    from that obtain r where "r < length g" "row = g ! r" by (auto simp: in_set_conv_nth)
    with hRows_defined [OF h, of r] ne show ?thesis by (simp add: hd_conv_nth)
  qed
  with ne show ?thesis by simp
qed

lemma skipBlocked_cong:
  "\<forall>i<n. get i = get' i \<Longrightarrow> skipBlocked get n c = skipBlocked get' n c"
proof (induction get n c rule: skipBlocked.induct)
  case (1 get n c)
  show ?case
  proof (cases "c < n")
    case False
    then show ?thesis
      by (simp add: skipBlocked.simps [of get n c] skipBlocked.simps [of get' n c])
  next
    case True
    with "1.prems" have eq: "get' c = get c" by simp
    show ?thesis
    proof (cases "get c")
      case (Inl e)
      with True eq show ?thesis
        by (simp add: skipBlocked.simps [of get n c] skipBlocked.simps [of get' n c])
    next
      case (Inr x)
      with True eq "1.IH" [OF True Inr _ "1.prems"] show ?thesis
        by (cases "blocked x")
           (simp_all add: skipBlocked.simps [of get n c] skipBlocked.simps [of get' n c])
    qed
  qed
qed

lemma skipOpen_cong:
  "\<forall>i<n. get i = get' i \<Longrightarrow> skipOpen get n c = skipOpen get' n c"
proof (induction get n c rule: skipOpen.induct)
  case (1 get n c)
  show ?case
  proof (cases "c < n")
    case False
    then show ?thesis
      by (simp add: skipOpen.simps [of get n c] skipOpen.simps [of get' n c])
  next
    case True
    with "1.prems" have eq: "get' c = get c" by simp
    show ?thesis
    proof (cases "get c")
      case (Inl e)
      with True eq show ?thesis
        by (simp add: skipOpen.simps [of get n c] skipOpen.simps [of get' n c])
    next
      case (Inr x)
      with True eq "1.IH" [OF True Inr _ "1.prems"] show ?thesis
        by (cases "blocked x")
           (simp_all add: skipOpen.simps [of get n c] skipOpen.simps [of get' n c])
    qed
  qed
qed

lemma scanLine_cong:
  "\<forall>i<n. get i = get' i \<Longrightarrow> scanLine get n mk c st = scanLine get' n mk c st"
proof (induction get n mk c st rule: scanLine.induct)
  case (1 get n mk c st)
  note sb = skipBlocked_cong [OF "1.prems", symmetric]
  note so = skipOpen_cong [OF "1.prems", symmetric]
  show ?case
  proof (cases "c < n")
    case False
    then show ?thesis
      by (simp add: scanLine.simps [of get n mk c] scanLine.simps [of get' n mk c])
  next
    case True
    show ?thesis
    proof (cases "skipBlocked get n c")
      case (Inl e)
      with True sb show ?thesis
        by (simp add: scanLine.simps [of get n mk c] scanLine.simps [of get' n mk c])
    next
      case s: (Inr start)
      show ?thesis
      proof (cases "skipOpen get n start")
        case (Inl e)
        with True s sb so show ?thesis
          by (simp add: scanLine.simps [of get n mk c] scanLine.simps [of get' n mk c])
      next
        case e: (Inr c')
        from "1.IH" [OF True s e "1.prems"] True s e sb so show ?thesis
          by (simp add: scanLine.simps [of get n mk c] scanLine.simps [of get' n mk c])
      qed
    qed
  qed
qed


lemma hRows_cong:
  assumes "length g' = length g" "length (g' ! 0) = length (g ! 0)"
    and "\<forall>r<length g. \<forall>i<length (g ! 0). cellAt g' r i = cellAt g r i"
  shows "hRows g' r st = hRows g r st"
proof (induction "length g - r" arbitrary: r st)
  case 0
  then show ?case using assms(1) by (simp add: hRows.simps [of g r] hRows.simps [of g' r])
next
  case (Suc d)
  then have rl: "r < length g" by simp
  have row: "scanLine (cellAt g' r) (length (g ! 0)) (mkH r) 0 st =
      scanLine (cellAt g r) (length (g ! 0)) (mkH r) 0 st"
    by (rule scanLine_cong) (use assms(3) rl in simp)
  have "hRows g' (r + 1) st1 = hRows g (r + 1) st1" for st1
    using Suc(2) by (intro Suc(1)) simp
  with rl row assms(1,2) show ?case
    by (simp add: hRows.simps [of g r] hRows.simps [of g' r] split: sum.splits)
qed

lemma vCols_cong:
  assumes "g \<noteq> []" "length g' = length g" "length (g' ! 0) = length (g ! 0)"
    and "\<forall>r<length g. \<forall>i<length (g ! 0). cellAt g' r i = cellAt g r i"
  shows "vCols g' c st = vCols g c st"
proof (induction "length (g ! 0) - c" arbitrary: c st)
  case 0
  from assms(1,2) obtain row0 rows row0' rows' where
    g: "g = row0 # rows" "g' = row0' # rows'" by (cases g; cases g') auto
  with 0 assms(3) show ?case
    by (simp add: vCols.simps [of "row0 # rows" c] vCols.simps [of "row0' # rows'" c])
next
  case (Suc d)
  from assms(1,2) obtain row0 rows row0' rows' where
    g: "g = row0 # rows" "g' = row0' # rows'" by (cases g; cases g') auto
  from Suc(2) have cl: "c < length (g ! 0)" by simp
  have col: "scanLine (\<lambda>r. cellAt g' r c) (length g) (mkV c) 0 st =
      scanLine (\<lambda>r. cellAt g r c) (length g) (mkV c) 0 st"
    by (rule scanLine_cong) (use assms(4) cl in simp)
  have rec: "vCols g' (c + 1) st1 = vCols g (c + 1) st1" for st1
    using Suc(2) by (intro Suc(1)) simp
  have l: "length row0' = length row0" "length (row0' # rows') = length (row0 # rows)"
    using assms(2,3) g by simp_all
  show ?case
    using cl col rec l unfolding g
    by (simp add: vCols.simps [of "row0 # rows" c] vCols.simps [of "row0' # rows'" c]
          split: sum.splits)
qed

lemma computeSlots_take:
  assumes "g \<noteq> []" "\<forall>row\<in>set g. length (hd g) \<le> length row"
  shows "computeSlots (map (take (length (hd g))) g) = computeSlots g"
proof -
  let ?C = "length (hd g)"
  let ?g = "map (take ?C) g"
  have h0: "hd g = g ! 0" using assms(1) by (simp add: hd_conv_nth)
  have 1: "length ?g = length g" by simp
  have 2: "length (?g ! 0) = length (g ! 0)" using assms(1) h0 by simp
  have len: "length (g ! 0) \<le> length (g ! r)" if "r < length g" for r
    using assms(2) h0 that by (metis nth_mem)
  have 3: "\<forall>r<length g. \<forall>i<length (g ! 0). cellAt ?g r i = cellAt g r i"
    using len h0 by (fastforce simp: cellAt_def)
  show ?thesis
    unfolding computeSlots_def
    by (simp only: hRows_cong [OF 1 2 3] vCols_cong [OF assms(1) 1 2 3])
qed


lemma openAt_take: "openAt (map (take C) g) rc \<Longrightarrow> openAt g rc"
  by (auto simp: openAt_def)

lemma computeSlots_succeeds:
  assumes "g \<noteq> []" "\<forall>row\<in>set g. length (hd g) \<le> length row"
  shows "\<exists>ss. computeSlots g = Inr ss"
proof -
  let ?g = "map (take (length (hd g))) g"
  have "?g \<noteq> []" using assms(1) by simp
  moreover have "\<forall>row\<in>set ?g. length row = length (hd g)" using assms(2) by auto
  ultimately obtain ss where "computeSlots ?g = Inr ss"
    using computeSlots_spec [of ?g "length (hd g)"] by blast
  then show ?thesis unfolding computeSlots_take [OF assms] ..
qed

lemma computeSlots_facts:
  assumes "computeSlots g = Inr ss"
  shows "map sid ss = [0..<length ss] \<and> sorted_wrt scanBefore ss \<and>
         (\<forall>s\<in>set ss. 2 \<le> slen s \<and> (\<forall>k<slen s. openAt g (cellOf s k)))"
proof -
  let ?g = "map (take (length (hd g))) g"
  from computeSlots_ok [OF assms] have ok: "g \<noteq> []" "\<forall>row\<in>set g. length (hd g) \<le> length row"
    by simp_all
  have "?g \<noteq> []" using ok(1) by simp
  moreover have "\<forall>row\<in>set ?g. length row = length (hd g)" using ok(2) by auto
  ultimately obtain ss' where ss': "computeSlots ?g = Inr ss'"
    "map sid ss' = [0..<length ss']" "sorted_wrt scanBefore ss'"
    "\<forall>s\<in>set ss'. 2 \<le> slen s \<and> isRun ?g s"
    using computeSlots_spec [of ?g "length (hd g)"] by blast
  from ss'(1) assms have eq: "ss' = ss" unfolding computeSlots_take [OF ok] by simp
  have "\<forall>k<slen s. openAt g (cellOf s k)" if "s \<in> set ss" for s
    using ss'(4) that eq by (auto simp: isRun_def intro: openAt_take)
  with ss'(2,3,4) eq show ?thesis by auto
qed

lemma computeSlots_fails_iff:
  "(\<exists>e. computeSlots g = Inl e) \<longleftrightarrow> g = [] \<or> (\<exists>row\<in>set g. length row < length (hd g))"
proof
  assume "\<exists>e. computeSlots g = Inl e"
  then have "\<not> (\<exists>ss. computeSlots g = Inr ss)" by auto
  with computeSlots_succeeds [of g] show "g = [] \<or> (\<exists>row\<in>set g. length row < length (hd g))"
    by (meson not_le)
next
  assume a: "g = [] \<or> (\<exists>row\<in>set g. length row < length (hd g))"
  show "\<exists>e. computeSlots g = Inl e"
  proof (cases "computeSlots g")
    case (Inl e)
    then show ?thesis by blast
  next
    case (Inr ss)
    from computeSlots_ok [OF this] a show ?thesis by (meson not_le)
  qed
qed

lemma skipBlocked_TypeError:
  "\<forall>i e. get i = Inl e \<longrightarrow> e = TypeError \<Longrightarrow> skipBlocked get n c = Inl e \<Longrightarrow> e = TypeError"
proof (induction get n c rule: skipBlocked.induct)
  case (1 get n c)
  from "1.prems"(2) have cn: "c < n" by (auto simp: skipBlocked.simps [of get n c] split: if_splits)
  show ?case
  proof (cases "get c")
    case (Inl e')
    with cn "1.prems" show ?thesis by (simp add: skipBlocked.simps [of get n c])
  next
    case (Inr x)
    with cn "1.prems"(2) have b: "blocked x" and "skipBlocked get n (c + 1) = Inl e"
      by (auto simp: skipBlocked.simps [of get n c] split: if_splits)
    with "1.IH" [OF cn Inr b "1.prems"(1)] show ?thesis by simp
  qed
qed

lemma skipOpen_TypeError:
  "\<forall>i e. get i = Inl e \<longrightarrow> e = TypeError \<Longrightarrow> skipOpen get n c = Inl e \<Longrightarrow> e = TypeError"
proof (induction get n c rule: skipOpen.induct)
  case (1 get n c)
  from "1.prems"(2) have cn: "c < n" by (auto simp: skipOpen.simps [of get n c] split: if_splits)
  show ?case
  proof (cases "get c")
    case (Inl e')
    with cn "1.prems" show ?thesis by (simp add: skipOpen.simps [of get n c])
  next
    case (Inr x)
    with cn "1.prems"(2) have b: "\<not> blocked x" and "skipOpen get n (c + 1) = Inl e"
      by (auto simp: skipOpen.simps [of get n c] split: if_splits)
    with "1.IH" [OF cn Inr b "1.prems"(1)] show ?thesis by simp
  qed
qed

lemma scanLine_TypeError:
  "\<forall>i e. get i = Inl e \<longrightarrow> e = TypeError \<Longrightarrow> scanLine get n mk c st = Inl e \<Longrightarrow> e = TypeError"
proof (induction get n mk c st rule: scanLine.induct)
  case (1 get n mk c st)
  from "1.prems"(2) have cn: "c < n" by (auto simp: scanLine.simps [of get n mk c] split: if_splits)
  show ?case
  proof (cases "skipBlocked get n c")
    case (Inl e')
    with cn "1.prems"(2) have "e' = e" by (simp add: scanLine.simps [of get n mk c])
    with skipBlocked_TypeError [OF "1.prems"(1) Inl] show ?thesis by simp
  next
    case s: (Inr start)
    show ?thesis
    proof (cases "skipOpen get n start")
      case (Inl e')
      with cn s "1.prems"(2) have "e' = e" by (simp add: scanLine.simps [of get n mk c])
      with skipOpen_TypeError [OF "1.prems"(1) Inl] show ?thesis by simp
    next
      case e: (Inr c')
      from "1.IH" [OF cn s e "1.prems"(1)] cn s e "1.prems"(2) show ?thesis
        by (simp add: scanLine.simps [of get n mk c])
    qed
  qed
qed

lemma cellAt_TypeError: "cellAt g r c = Inl e \<Longrightarrow> e = TypeError"
  by (simp add: cellAt_def split: if_splits)

lemma hRows_TypeError: "hRows g r st = Inl e \<Longrightarrow> e = TypeError"
proof (induction g r st rule: hRows.induct)
  case (1 g r st)
  from "1.prems" have rl: "r < length g" by (auto simp: hRows.simps [of g r] split: if_splits)
  show ?case
  proof (cases "scanLine (cellAt g r) (length (g ! 0)) (mkH r) 0 st")
    case (Inl e')
    with rl "1.prems" have "e' = e" by (simp add: hRows.simps [of g r])
    with scanLine_TypeError [OF _ Inl] show ?thesis by (simp add: cellAt_TypeError)
  next
    case (Inr st1)
    with "1.IH" [OF rl Inr] rl "1.prems" show ?thesis by (simp add: hRows.simps [of g r])
  qed
qed

lemma vCols_TypeError: "vCols g c st = Inl e \<Longrightarrow> e = TypeError"
proof (induction g c st rule: vCols.induct)
  case (1 g c st)
  show ?case
  proof (cases g)
    case Nil
    with "1.prems" show ?thesis by (simp add: vCols.simps [of "[]" c])
  next
    case (Cons row0 rows)
    with "1.prems" have cl: "c < length row0"
      by (auto simp: vCols.simps [of "row0 # rows" c] split: if_splits)
    show ?thesis
    proof (cases "scanLine (\<lambda>r. cellAt g r c) (length g) (mkV c) 0 st")
      case (Inl e')
      with cl Cons "1.prems" have "e' = e" by (simp add: vCols.simps [of "row0 # rows" c])
      with scanLine_TypeError [OF _ Inl] show ?thesis by (simp add: cellAt_TypeError)
    next
      case (Inr st1)
      with "1.IH" [OF Cons cl Inr] cl Cons "1.prems" show ?thesis
        by (simp add: vCols.simps [of "row0 # rows" c])
    qed
  qed
qed

lemma computeSlots_TypeError: "computeSlots g = Inl e \<Longrightarrow> e = TypeError"
  by (auto simp: computeSlots_def split: sum.splits dest: hRows_TypeError vCols_TypeError)

subsection \<open>Crossing constraints\<close>

lemma before_set: "before xs u v \<Longrightarrow> u \<in> set xs \<and> v \<in> set xs"
  by (induction xs) auto

lemma before_append:
  "before (xs @ ys) u v \<longleftrightarrow> before xs u v \<or> before ys u v \<or> (u \<in> set xs \<and> v \<in> set ys)"
  by (induction xs) (auto dest: before_set)

lemma before_map:
  "before (map f xs) a b \<longleftrightarrow> (\<exists>u v. before xs u v \<and> f u = a \<and> f v = b)"
  by (induction xs) auto

lemma before_filter:
  "before (filter P xs) u v \<longleftrightarrow> P u \<and> P v \<and> before xs u v"
  by (induction xs) (auto dest: before_set)

lemma before_concat:
  "before (concat xss) u v \<longleftrightarrow>
     (\<exists>xs\<in>set xss. before xs u v) \<or> (\<exists>xs ys. before xss xs ys \<and> u \<in> set xs \<and> v \<in> set ys)"
  by (induction xss) (auto simp: before_append)

lemma before_irrefl: "distinct xs \<Longrightarrow> \<not> before xs u u"
  by (induction xs) auto

lemma before_sorted:
  "sorted_wrt (<) (map f xs) \<Longrightarrow>
     before xs u v \<longleftrightarrow> u \<in> set xs \<and> v \<in> set xs \<and> f u < (f v :: nat)"
  by (induction xs) (auto dest: before_set)

lemma pairsOf_Cons: "pairsOf (x # xs) = map (mkCross x) xs @ pairsOf xs"
proof -
  let ?n = "length xs"
  have "map (mkCross x) xs = map (mkCross x) (map ((!) xs) [0..<?n])"
    by (simp only: map_nth)
  also have "\<dots> = map (\<lambda>j. mkCross x ((x # xs) ! j)) [Suc 0..<Suc ?n]"
    by (simp add: map_Suc_upt [symmetric] comp_def del: upt_Suc)
  finally have 0: "map (\<lambda>j. mkCross x ((x # xs) ! j)) [Suc 0..<Suc ?n] = map (mkCross x) xs"
    by simp
  have 1: "map (\<lambda>j. mkCross (xs ! i) ((x # xs) ! j)) [Suc (Suc i)..<Suc ?n] =
      map (\<lambda>j. mkCross (xs ! i) (xs ! j)) [Suc i..<?n]" for i
    by (simp add: map_Suc_upt [symmetric] del: upt_Suc)
  have "pairsOf (x # xs) =
      concat (map (\<lambda>i. map (\<lambda>j. mkCross ((x # xs) ! i) ((x # xs) ! j)) [i + 1..<Suc ?n])
        (0 # map Suc [0..<?n]))"
    unfolding pairsOf_def by (simp add: map_Suc_upt upt_conv_Cons del: upt_Suc)
  also have "\<dots> = map (mkCross x) xs @ pairsOf xs"
    unfolding pairsOf_def by (simp add: 0 1 comp_def del: upt_Suc)
  finally show ?thesis .
qed

lemma pairsOf_Nil: "pairsOf [] = []"
  by (simp add: pairsOf_def)

lemma set_pairsOf: "x \<in> set (pairsOf arr) \<longleftrightarrow> (\<exists>u v. before arr u v \<and> x = mkCross u v)"
  by (induction arr) (auto simp: pairsOf_Nil pairsOf_Cons)

lemma markSlot_entries:
  "markSlot s m = fold (\<lambda>(key, e). pushMark key e) (entriesOf s) m"
  by (simp add: markSlot_def entriesOf_def fold_map comp_def)

lemma markAll_entries: "markAll ss = fold (\<lambda>(key, e). pushMark key e) (entries ss) []"
proof -
  have "fold markSlot ss m = fold (\<lambda>(key, e). pushMark key e) (entries ss) m" for m
    by (induction ss arbitrary: m) (simp_all add: entries_def markSlot_entries)
  then show ?thesis by (simp add: markAll_def)
qed

lemma pushMark_keys: "distinct (map fst m) \<Longrightarrow> distinct (map fst (pushMark key e m))"
  by (simp add: pushMark_def distinct_update)

lemma pushMark_lookup:
  "map_of (pushMark key e m) k =
     (if k = key then Some ((case map_of m key of None \<Rightarrow> [] | Some arr \<Rightarrow> arr) @ [e])
      else map_of m k)"
  by (simp add: pushMark_def update_conv')

lemma fold_pushMark:
  assumes "distinct (map fst m0)"
  shows "distinct (map fst (fold (\<lambda>(key, e). pushMark key e) es m0)) \<and>
     map_of (fold (\<lambda>(key, e). pushMark key e) es m0) k =
       (case map_of m0 k of
          None \<Rightarrow> if filter (\<lambda>x. fst x = k) es = [] then None
                  else Some (map snd (filter (\<lambda>x. fst x = k) es))
        | Some arr \<Rightarrow> Some (arr @ map snd (filter (\<lambda>x. fst x = k) es)))"
  using assms
proof (induction es arbitrary: m0)
  case Nil
  then show ?case by (simp split: option.splits)
next
  case (Cons x es)
  obtain key e where x: "x = (key, e)" by (cases x)
  have d: "distinct (map fst (pushMark key e m0))" using Cons.prems by (rule pushMark_keys)
  show ?case
    unfolding x using Cons.IH [OF d]
    by (simp add: pushMark_lookup split: option.splits)
qed

lemma markAll_lookup:
  "distinct (map fst (markAll ss)) \<and>
   map_of (markAll ss) k =
     (if filter (\<lambda>x. fst x = k) (entries ss) = [] then None
      else Some (map snd (filter (\<lambda>x. fst x = k) (entries ss))))"
  using fold_pushMark [of "[]" "entries ss" k] by (simp add: markAll_entries)

lemma in_buildCrosses:
  "x \<in> set (buildCrosses ss) \<longleftrightarrow>
     (\<exists>a b. before (entries ss) a b \<and> fst a = fst b \<and> x = mkCross (snd a) (snd b))"
proof
  assume "x \<in> set (buildCrosses ss)"
  then obtain key arr where m: "(key, arr) \<in> set (markAll ss)" and x: "x \<in> set (pairsOf arr)"
    by (auto simp: buildCrosses_def split: if_splits)
  from markAll_lookup [of ss key] have "distinct (map fst (markAll ss))" by simp
  with m have "map_of (markAll ss) key = Some arr" by (simp only: map_of_eq_Some_iff)
  with markAll_lookup [of ss key] have arr: "arr = map snd (filter (\<lambda>x. fst x = key) (entries ss))"
    by (simp split: if_splits)
  from x obtain u v where uv: "before arr u v" "x = mkCross u v" by (auto simp: set_pairsOf)
  from uv(1) obtain a b where
    ab: "before (filter (\<lambda>x. fst x = key) (entries ss)) a b" "snd a = u" "snd b = v"
    unfolding arr before_map by blast
  from ab(1) have "fst a = key" "fst b = key" "before (entries ss) a b"
    by (simp_all add: before_filter)
  with ab(2,3) uv(2)
  show "\<exists>a b. before (entries ss) a b \<and> fst a = fst b \<and> x = mkCross (snd a) (snd b)"
    by (intro exI [of _ a] exI [of _ b]) simp
next
  assume "\<exists>a b. before (entries ss) a b \<and> fst a = fst b \<and> x = mkCross (snd a) (snd b)"
  then obtain a b where ab: "before (entries ss) a b" "fst a = fst b" "x = mkCross (snd a) (snd b)"
    by blast
  let ?arr = "map snd (filter (\<lambda>x. fst x = fst a) (entries ss))"
  have "before (filter (\<lambda>x. fst x = fst a) (entries ss)) a b"
    using ab(1,2) by (simp add: before_filter)
  then have bf: "before ?arr (snd a) (snd b)"
    unfolding before_map by blast
  have "a \<in> set (entries ss)" using ab(1) by (auto dest: before_set)
  then have "filter (\<lambda>x. fst x = fst a) (entries ss) \<noteq> []"
    by (auto simp: filter_empty_conv)
  with markAll_lookup [of ss "fst a"] have "map_of (markAll ss) (fst a) = Some ?arr" by simp
  then have m: "(fst a, ?arr) \<in> set (markAll ss)" by (rule map_of_SomeD)
  have x: "x \<in> set (pairsOf ?arr)" using bf ab(3) by (auto simp: set_pairsOf)
  then have "\<not> length ?arr < 2"
    by (cases ?arr rule: list.exhaust [case_product list.exhaust])
       (auto simp: pairsOf_Nil pairsOf_Cons simp del: map_eq_Cons_conv)
  with x have fx: "x \<in> set ((\<lambda>(key, arr). if length arr < 2 then [] else pairsOf arr) (fst a, ?arr))"
    by simp
  define f where "f = (\<lambda>(key :: nat \<times> nat, arr). if length arr < 2 then [] else pairsOf arr)"
  from m have "f (fst a, ?arr) \<in> f ` set (markAll ss)" by (rule imageI)
  moreover from fx have "x \<in> set (f (fst a, ?arr))" by (simp add: f_def)
  ultimately have "x \<in> (\<Union>ys\<in>f ` set (markAll ss). set ys)" by blast
  then show "x \<in> set (buildCrosses ss)"
    by (simp add: buildCrosses_def f_def)
qed

lemma cellOf_inj: "cellOf s k = cellOf s k' \<Longrightarrow> k = k'"
  by (cases "sdir s") (auto simp: cellOf_def)

lemma distinct_entriesOf: "distinct (entriesOf s)"
  by (auto simp: entriesOf_def distinct_map intro!: inj_onI)

lemma in_entriesOf:
  "a \<in> set (entriesOf s) \<longleftrightarrow> (\<exists>k<slen s. a = (cellOf s k, \<lparr>slotId = sid s, off = k\<rparr>))"
  by (auto simp: entriesOf_def)

lemma before_entries:
  "before (entries ss) a b \<and> fst a = fst b \<longleftrightarrow>
     (\<exists>s t. before ss s t \<and> a \<in> set (entriesOf s) \<and> b \<in> set (entriesOf t) \<and> fst a = fst b)"
proof -
  have no: "\<not> (before (entriesOf s) a b \<and> fst a = fst b)" for s
  proof
    assume h: "before (entriesOf s) a b \<and> fst a = fst b"
    then have "a \<in> set (entriesOf s)" "b \<in> set (entriesOf s)" by (auto dest: before_set)
    with h have "a = b" by (auto simp: in_entriesOf dest: cellOf_inj)
    with h before_irrefl [OF distinct_entriesOf] show False by auto
  qed
  have d1: "(\<exists>xs\<in>set (map entriesOf ss). before xs a b) \<longleftrightarrow>
      (\<exists>s\<in>set ss. before (entriesOf s) a b)"
    by auto
  have d2: "(\<exists>xs ys. before (map entriesOf ss) xs ys \<and> a \<in> set xs \<and> b \<in> set ys) \<longleftrightarrow>
      (\<exists>s t. before ss s t \<and> a \<in> set (entriesOf s) \<and> b \<in> set (entriesOf t))"
  proof
    assume "\<exists>xs ys. before (map entriesOf ss) xs ys \<and> a \<in> set xs \<and> b \<in> set ys"
    then obtain xs ys where xy: "before (map entriesOf ss) xs ys" "a \<in> set xs" "b \<in> set ys"
      by blast
    from xy(1) obtain u v where "before ss u v" "entriesOf u = xs" "entriesOf v = ys"
      unfolding before_map by blast
    with xy(2,3) show "\<exists>s t. before ss s t \<and> a \<in> set (entriesOf s) \<and> b \<in> set (entriesOf t)"
      by blast
  next
    assume "\<exists>s t. before ss s t \<and> a \<in> set (entriesOf s) \<and> b \<in> set (entriesOf t)"
    then obtain u v where uv: "before ss u v" "a \<in> set (entriesOf u)" "b \<in> set (entriesOf v)"
      by blast
    from uv(1) have "before (map entriesOf ss) (entriesOf u) (entriesOf v)"
      unfolding before_map by blast
    with uv(2,3) show "\<exists>xs ys. before (map entriesOf ss) xs ys \<and> a \<in> set xs \<and> b \<in> set ys"
      by blast
  qed
  have "before (entries ss) a b \<longleftrightarrow>
      (\<exists>s\<in>set ss. before (entriesOf s) a b) \<or>
      (\<exists>s t. before ss s t \<and> a \<in> set (entriesOf s) \<and> b \<in> set (entriesOf t))"
    unfolding entries_def before_concat d1 d2 ..
  with no show ?thesis by blast
qed

lemma crosses_iff:
  "x \<in> set (buildCrosses ss) \<longleftrightarrow>
     (\<exists>s t. before ss s t \<and> cia x < slen s \<and> cib x < slen t \<and>
        cellOf s (cia x) = cellOf t (cib x) \<and> ca x = sid s \<and> cb x = sid t)"
proof
  assume "x \<in> set (buildCrosses ss)"
  then obtain a b where "before (entries ss) a b \<and> fst a = fst b" and x: "x = mkCross (snd a) (snd b)"
    unfolding in_buildCrosses by blast
  then obtain s t where st: "before ss s t" "a \<in> set (entriesOf s)" "b \<in> set (entriesOf t)"
    "fst a = fst b"
    unfolding before_entries by blast
  from st(2,3) obtain k k' where k: "k < slen s" "a = (cellOf s k, \<lparr>slotId = sid s, off = k\<rparr>)"
    "k' < slen t" "b = (cellOf t k', \<lparr>slotId = sid t, off = k'\<rparr>)"
    unfolding in_entriesOf by blast
  show "\<exists>s t. before ss s t \<and> cia x < slen s \<and> cib x < slen t \<and>
        cellOf s (cia x) = cellOf t (cib x) \<and> ca x = sid s \<and> cb x = sid t"
    using st(1,4) k unfolding x by (intro exI [of _ s] exI [of _ t]) (simp add: mkCross_def)
next
  assume "\<exists>s t. before ss s t \<and> cia x < slen s \<and> cib x < slen t \<and>
        cellOf s (cia x) = cellOf t (cib x) \<and> ca x = sid s \<and> cb x = sid t"
  then obtain s t where st: "before ss s t" "cia x < slen s" "cib x < slen t"
    "cellOf s (cia x) = cellOf t (cib x)" "ca x = sid s" "cb x = sid t"
    by blast
  let ?a = "(cellOf s (cia x), \<lparr>slotId = sid s, off = cia x\<rparr>)"
  let ?b = "(cellOf t (cib x), \<lparr>slotId = sid t, off = cib x\<rparr>)"
  have "?a \<in> set (entriesOf s)" "?b \<in> set (entriesOf t)"
    using st(2,3) unfolding in_entriesOf by blast+
  with st(1,4) have "before (entries ss) ?a ?b \<and> fst ?a = fst ?b"
    unfolding before_entries by (intro exI [of _ s] exI [of _ t]) simp
  moreover have "x = mkCross (snd ?a) (snd ?b)" using st(5,6) by (simp add: mkCross_def)
  ultimately show "x \<in> set (buildCrosses ss)"
    unfolding in_buildCrosses by blast
qed

lemma distinct_concat_map:
  assumes "distinct (map fst m)"
    and "\<And>p. p \<in> set m \<Longrightarrow> distinct (f p)"
    and "\<And>p q. p \<in> set m \<Longrightarrow> q \<in> set m \<Longrightarrow> fst p \<noteq> fst q \<Longrightarrow> set (f p) \<inter> set (f q) = {}"
  shows "distinct (concat (map f m))"
  using assms
proof (induction m)
  case Nil
  show ?case by simp
next
  case (Cons p m)
  have "set (f p) \<inter> set (f q) = {}" if "q \<in> set m" for q
  proof -
    from that Cons.prems(1) have "fst p \<noteq> fst q" by auto
    with Cons.prems(3) [of p q] that show ?thesis by simp
  qed
  moreover have "distinct (concat (map f m))"
    using Cons.prems by (intro Cons.IH) auto
  ultimately show ?case using Cons.prems(2) [of p] by auto
qed

lemma mkCross_inj: "mkCross u v = mkCross u' v' \<longleftrightarrow> u = u' \<and> v = v'"
  by (cases u; cases u'; cases v; cases v') (simp add: mkCross_def)

lemma distinct_pairsOf: "distinct arr \<Longrightarrow> distinct (pairsOf arr)"
proof (induction arr)
  case Nil
  show ?case by (simp add: pairsOf_Nil)
next
  case (Cons x xs)
  have 1: "distinct (map (mkCross x) xs)"
    using Cons.prems by (auto simp: distinct_map mkCross_inj intro!: inj_onI)
  have 2: "distinct (pairsOf xs)" using Cons by simp
  have 3: "set (map (mkCross x) xs) \<inter> set (pairsOf xs) = {}"
  proof (rule ccontr)
    assume "set (map (mkCross x) xs) \<inter> set (pairsOf xs) \<noteq> {}"
    then obtain y where y: "y \<in> set (map (mkCross x) xs)" "y \<in> set (pairsOf xs)" by blast
    from y(1) obtain v where v: "y = mkCross x v" by auto
    from y(2) obtain u' v' where u: "before xs u' v'" "y = mkCross u' v'"
      unfolding set_pairsOf by blast
    from v u(2) have "x = u'" by (simp add: mkCross_inj)
    with u(1) have "x \<in> set xs" by (auto dest: before_set)
    with Cons.prems show False by simp
  qed
  show ?case unfolding pairsOf_Cons using 1 2 3 by simp
qed

lemma distinct_marks: "distinct (map sid ss) \<Longrightarrow> distinct (map snd (entries ss))"
proof (induction ss)
  case Nil
  show ?case by (simp add: entries_def)
next
  case (Cons s ss)
  have e: "map snd (entries (s # ss)) = map snd (entriesOf s) @ map snd (entries ss)"
    by (simp add: entries_def)
  have 1: "distinct (map snd (entriesOf s))"
    by (auto simp: entriesOf_def distinct_map comp_def intro!: inj_onI)
  have 2: "distinct (map snd (entries ss))" using Cons by simp
  have own: "slotId y = sid s" if "y \<in> set (map snd (entriesOf s))" for y
    using that by (auto simp: entriesOf_def)
  have other: "slotId y \<in> sid ` set ss" if "y \<in> set (map snd (entries ss))" for y
    using that by (auto simp: entries_def entriesOf_def)
  have 3: "set (map snd (entriesOf s)) \<inter> set (map snd (entries ss)) = {}"
  proof (rule ccontr)
    assume "set (map snd (entriesOf s)) \<inter> set (map snd (entries ss)) \<noteq> {}"
    then obtain y where "y \<in> set (map snd (entriesOf s))" "y \<in> set (map snd (entries ss))"
      by blast
    with own other have "sid s \<in> sid ` set ss" by metis
    with Cons.prems show False by simp
  qed
  show ?case unfolding e using 1 2 3 by simp
qed

lemma distinct_buildCrosses:
  assumes "distinct (map sid ss)"
  shows "distinct (buildCrosses ss)"
proof -
  let ?es = "entries ss"
  let ?f = "\<lambda>(key :: nat \<times> nat, arr). if length arr < 2 then [] else pairsOf arr"
  have dm: "distinct (map snd ?es)" using assms by (rule distinct_marks)
  have keys: "distinct (map fst (markAll ss))" using markAll_lookup [of ss] by simp
  have arr: "snd p = map snd (filter (\<lambda>x. fst x = fst p) ?es)" if "p \<in> set (markAll ss)" for p
  proof -
    from that keys have "map_of (markAll ss) (fst p) = Some (snd p)" by simp
    with markAll_lookup [of ss "fst p"] show ?thesis by (simp split: if_splits)
  qed
  have d: "distinct (?f p)" if "p \<in> set (markAll ss)" for p
  proof -
    have "distinct (snd p)" unfolding arr [OF that] using dm by (rule distinct_map_filter)
    then show ?thesis by (cases p) (simp add: distinct_pairsOf)
  qed
  have memb: "\<exists>e\<in>set ?es. fst e = fst p \<and> ca y = slotId (snd e) \<and> cia y = off (snd e)"
    if "p \<in> set (markAll ss)" "y \<in> set (?f p)" for p y
  proof -
    from that(2) have "y \<in> set (pairsOf (snd p))" by (cases p) (auto split: if_splits)
    then obtain u v where uv: "before (snd p) u v" "y = mkCross u v" by (auto simp: set_pairsOf)
    then have "u \<in> set (snd p)" by (auto dest: before_set)
    then have "u \<in> set (map snd (filter (\<lambda>x. fst x = fst p) ?es))"
      using arr [OF that(1)] by simp
    then obtain e where "e \<in> set ?es" "fst e = fst p" "snd e = u"
      by auto
    with uv(2) show ?thesis by (intro bexI [of _ e]) (simp_all add: mkCross_def)
  qed
  have disj: "set (?f p) \<inter> set (?f q) = {}"
    if "p \<in> set (markAll ss)" "q \<in> set (markAll ss)" "fst p \<noteq> fst q" for p q
  proof (rule ccontr)
    assume "set (?f p) \<inter> set (?f q) \<noteq> {}"
    then obtain y where y: "y \<in> set (?f p)" "y \<in> set (?f q)" by blast
    from memb [OF that(1) y(1)] obtain e where
      e: "e \<in> set ?es" "fst e = fst p" "ca y = slotId (snd e)" "cia y = off (snd e)" by blast
    from memb [OF that(2) y(2)] obtain e' where
      e': "e' \<in> set ?es" "fst e' = fst q" "ca y = slotId (snd e')" "cia y = off (snd e')" by blast
    from e(3,4) e'(3,4) have "snd e = snd e'" by (cases "snd e"; cases "snd e'") simp
    with dm e(1) e'(1) have "e = e'" by (auto simp: distinct_map dest: inj_onD)
    with e(2) e'(2) that(3) show False by simp
  qed
  have "distinct (concat (map ?f (markAll ss)))"
    using keys d disj by (rule distinct_concat_map)
  then show ?thesis by (simp add: buildCrosses_def)
qed

text \<open>
  C4: for the slots of a grid, \<^verbatim>\<open>buildCrosses\<close> returns a list without repetition
  whose members are exactly the constraints \<open>(a, ia, b, ib)\<close> for two slots \<open>a\<close> and
  \<open>b\<close> of the list, \<open>a\<close> before \<open>b\<close>, and a cell that is at offset \<open>ia\<close> of \<open>a\<close> and at
  offset \<open>ib\<close> of \<open>b\<close>: one constraint for each pair of distinct slots and each cell they
  share, and none for a cell that only one slot covers.
\<close>

theorem buildCrosses_pairs:
  "computeSlots g = Inr ss \<Longrightarrow>
     distinct (buildCrosses ss) \<and>
     (\<forall>x. x \<in> set (buildCrosses ss) \<longleftrightarrow>
        (\<exists>s\<in>set ss. \<exists>t\<in>set ss. sid s < sid t \<and> cia x < slen s \<and> cib x < slen t \<and>
           cellOf s (cia x) = cellOf t (cib x) \<and> ca x = sid s \<and> cb x = sid t))"
proof -
  assume "computeSlots g = Inr ss"
  from computeSlots_facts [OF this] have ids: "map sid ss = [0..<length ss]" by simp
  then have so: "sorted_wrt (<) (map sid ss)" and di: "distinct (map sid ss)" by simp_all
  have "x \<in> set (buildCrosses ss) \<longleftrightarrow>
        (\<exists>s\<in>set ss. \<exists>t\<in>set ss. sid s < sid t \<and> cia x < slen s \<and> cib x < slen t \<and>
           cellOf s (cia x) = cellOf t (cib x) \<and> ca x = sid s \<and> cb x = sid t)" for x
    unfolding crosses_iff before_sorted [OF so] by blast
  with distinct_buildCrosses [OF di] show ?thesis by blast
qed

theorem buildCrosses_pairs_witness:
  "computeSlots testGrid1 =
     Inr [\<lparr>sid = 0, sr = 0, sc = 0, slen = 3, sdir = H\<rparr>,
          \<lparr>sid = 1, sr = 2, sc = 0, slen = 3, sdir = H\<rparr>,
          \<lparr>sid = 2, sr = 0, sc = 1, slen = 3, sdir = V\<rparr>] \<and>
   buildCrosses [\<lparr>sid = 0, sr = 0, sc = 0, slen = 3, sdir = H\<rparr>,
          \<lparr>sid = 1, sr = 2, sc = 0, slen = 3, sdir = H\<rparr>,
          \<lparr>sid = 2, sr = 0, sc = 1, slen = 3, sdir = V\<rparr>] =
     [\<lparr>ca = 0, cia = 1, cb = 2, cib = 0\<rparr>, \<lparr>ca = 1, cia = 1, cb = 2, cib = 2\<rparr>] \<and>
   distinct (buildCrosses [\<lparr>sid = 0, sr = 0, sc = 0, slen = 3, sdir = H\<rparr>,
          \<lparr>sid = 1, sr = 2, sc = 0, slen = 3, sdir = H\<rparr>,
          \<lparr>sid = 2, sr = 0, sc = 1, slen = 3, sdir = V\<rparr>]) \<and>
   \<lparr>ca = 0, cia = 1, cb = 2, cib = 0\<rparr> \<in>
     set (buildCrosses [\<lparr>sid = 0, sr = 0, sc = 0, slen = 3, sdir = H\<rparr>,
          \<lparr>sid = 1, sr = 2, sc = 0, slen = 3, sdir = H\<rparr>,
          \<lparr>sid = 2, sr = 0, sc = 1, slen = 3, sdir = V\<rparr>])"
proof -
  let ?ss = "[\<lparr>sid = 0, sr = 0, sc = 0, slen = 3, sdir = H\<rparr>,
          \<lparr>sid = 1, sr = 2, sc = 0, slen = 3, sdir = H\<rparr>,
          \<lparr>sid = 2, sr = 0, sc = 1, slen = 3, sdir = V\<rparr>]"
  have cs: "computeSlots testGrid1 = Inr ?ss" by code_simp
  have bc: "buildCrosses ?ss =
     [\<lparr>ca = 0, cia = 1, cb = 2, cib = 0\<rparr>, \<lparr>ca = 1, cia = 1, cb = 2, cib = 2\<rparr>]"
    by code_simp
  from buildCrosses_pairs [OF cs] have d: "distinct (buildCrosses ?ss)"
    and m: "\<lparr>ca = 0, cia = 1, cb = 2, cib = 0\<rparr> \<in> set (buildCrosses ?ss) \<longleftrightarrow>
        (\<exists>s\<in>set ?ss. \<exists>t\<in>set ?ss. sid s < sid t \<and> 1 < slen s \<and> 0 < slen t \<and>
           cellOf s 1 = cellOf t 0 \<and> 0 = sid s \<and> 2 = sid t)"
    by simp_all
  have "\<lparr>ca = 0, cia = 1, cb = 2, cib = 0\<rparr> \<in> set (buildCrosses ?ss)"
    unfolding m by (simp add: cellOf_def)
  with cs bc d show ?thesis by simp
qed

subsection \<open>The environment of the search\<close>

lemma fixedLoop_spec:
  assumes "\<forall>k\<in>set ks. \<exists>x. cellAt g (fst (cellOf s k)) (snd (cellOf s k)) = Inr x"
  shows "\<exists>fx. fixedLoop up g s ks m = Inr (m @ fx) \<and>
           (\<forall>w. list_all (\<lambda>(i, c). charAt w i = Some c) fx \<longleftrightarrow>
               (\<forall>k\<in>set ks. \<forall>u. letterAt up g (cellOf s k) = Some u \<longrightarrow> charAt w k = Some u))"
  using assms
proof (induction ks arbitrary: m)
  case Nil
  show ?case by simp
next
  case (Cons k ks)
  from Cons.prems obtain x where x: "cellAt g (fst (cellOf s k)) (snd (cellOf s k)) = Inr x"
    by auto
  define new where "new = (case letterAt up g (cellOf s k) of None \<Rightarrow> [] | Some u \<Rightarrow> [(k, u)])"
  have step: "fixedLoop up g s (k # ks) m = fixedLoop up g s ks (m @ new)"
    using x by (auto simp: new_def letterAt_def split: option.splits)
  from Cons.IH [of "m @ new"] Cons.prems obtain fx where
    fx: "fixedLoop up g s ks (m @ new) = Inr ((m @ new) @ fx)"
      "\<forall>w. list_all (\<lambda>(i, c). charAt w i = Some c) fx \<longleftrightarrow>
          (\<forall>k\<in>set ks. \<forall>u. letterAt up g (cellOf s k) = Some u \<longrightarrow> charAt w k = Some u)"
    by auto
  have n: "list_all (\<lambda>(i, c). charAt w i = Some c) new \<longleftrightarrow>
      (\<forall>u. letterAt up g (cellOf s k) = Some u \<longrightarrow> charAt w k = Some u)" for w
    by (simp add: new_def split: option.splits)
  show ?case
    using step fx n by (intro exI [of _ "new @ fx"]) auto
qed

lemma fixedAll_spec:
  assumes "distinct (map sid ss)"
    and "\<forall>s\<in>set ss. \<forall>k<slen s. \<exists>x. cellAt g (fst (cellOf s k)) (snd (cellOf s k)) = Inr x"
  shows "\<exists>fx. fixedAll up g ss fx0 = Inr fx \<and>
           (\<forall>s\<in>set ss. \<exists>l. fx (sid s) = Some l \<and>
               (\<forall>w. list_all (\<lambda>(i, c). charAt w i = Some c) l \<longleftrightarrow> fitsFixed up g s w)) \<and>
           (\<forall>i. i \<notin> sid ` set ss \<longrightarrow> fx i = fx0 i)"
  using assms
proof (induction ss arbitrary: fx0)
  case Nil
  show ?case by simp
next
  case (Cons s ss)
  have "\<forall>k\<in>set [0..<slen s]. \<exists>x. cellAt g (fst (cellOf s k)) (snd (cellOf s k)) = Inr x"
    using Cons.prems(2) by simp
  from fixedLoop_spec [OF this, of up "[]"] obtain l where
    l0: "fixedLoop up g s [0..<slen s] [] = Inr l"
      "\<forall>w. list_all (\<lambda>(i, c). charAt w i = Some c) l \<longleftrightarrow>
         (\<forall>k\<in>set [0..<slen s]. \<forall>u. letterAt up g (cellOf s k) = Some u \<longrightarrow> charAt w k = Some u)"
    by auto
  have "(\<forall>k\<in>set [0..<slen s]. \<forall>u. letterAt up g (cellOf s k) = Some u \<longrightarrow> charAt w k = Some u)
      \<longleftrightarrow> fitsFixed up g s w" for w
    by (auto simp: fitsFixed_def)
  with l0 have l: "fixedLoop up g s [0..<slen s] [] = Inr l"
      "\<forall>w. list_all (\<lambda>(i, c). charAt w i = Some c) l \<longleftrightarrow> fitsFixed up g s w"
    by simp_all
  have d: "distinct (map sid ss)"
    and c: "\<forall>s\<in>set ss. \<forall>k<slen s. \<exists>x. cellAt g (fst (cellOf s k)) (snd (cellOf s k)) = Inr x"
    using Cons.prems by simp_all
  from Cons.IH [OF d c, of "fx0(sid s \<mapsto> l)"] obtain fx where
    fx: "fixedAll up g ss (fx0(sid s \<mapsto> l)) = Inr fx"
      "\<forall>t\<in>set ss. \<exists>l. fx (sid t) = Some l \<and>
               (\<forall>w. list_all (\<lambda>(i, c). charAt w i = Some c) l \<longleftrightarrow> fitsFixed up g t w)"
      "\<forall>i. i \<notin> sid ` set ss \<longrightarrow> fx i = (fx0(sid s \<mapsto> l)) i"
    by blast
  from Cons.prems(1) have "sid s \<notin> sid ` set ss" by simp
  with fx(3) have "fx (sid s) = Some l" by simp
  with l fx show ?case by (intro exI [of _ fx]) auto
qed

lemma initCrossing_eq:
  "initCrossing ss i = (if i \<in> sid ` set ss then Some [] else None)"
proof -
  have f: "fold (\<lambda>s m. m(sid s \<mapsto> [])) ss m i = (if i \<in> sid ` set ss then Some [] else m i)"
    for m :: "nat \<rightharpoonup> xref list"
    by (induction ss arbitrary: m) auto
  show ?thesis unfolding initCrossing_def f by simp
qed

lemma addCrosses_spec:
  assumes "\<forall>x\<in>set xs. ca x \<in> dom m \<and> cb x \<in> dom m"
  shows "\<exists>m'. addCrosses xs m = Inr m' \<and> dom m' = dom m \<and>
           (\<forall>i l. m i = Some l \<longrightarrow>
              (\<exists>l'. m' i = Some (l @ l') \<and>
                 (\<forall>asg w. list_all (crossOk asg w) l' \<longleftrightarrow> crossFits xs asg i w)))"
  using assms
proof (induction xs arbitrary: m)
  case Nil
  show ?case by (simp add: crossFits_def)
next
  case (Cons x xs)
  from Cons.prems obtain la where la: "m (ca x) = Some la" by auto
  define m1 where "m1 = m(ca x \<mapsto> la @ [\<lparr>otherId = cb x, idxThis = cia x, idxOther = cib x\<rparr>])"
  from Cons.prems have "cb x \<in> dom m1" by (auto simp: m1_def)
  then obtain lb where lb: "m1 (cb x) = Some lb" by auto
  define m2 where "m2 = m1(cb x \<mapsto> lb @ [\<lparr>otherId = ca x, idxThis = cib x, idxOther = cia x\<rparr>])"
  have step: "addCrosses (x # xs) m = addCrosses xs m2"
    using la lb by (simp add: m1_def [symmetric] m2_def [symmetric] Let_def)
  have dom2: "dom m2 = dom m" using la lb by (auto simp: m1_def m2_def split: if_splits)
  from Cons.IH [of m2] Cons.prems dom2 obtain m' where
    m': "addCrosses xs m2 = Inr m'" "dom m' = dom m2"
      "\<forall>i l. m2 i = Some l \<longrightarrow>
          (\<exists>l'. m' i = Some (l @ l') \<and>
             (\<forall>asg w. list_all (crossOk asg w) l' \<longleftrightarrow> crossFits xs asg i w))"
    by auto
  have "\<exists>l'. m' i = Some (l @ l') \<and>
          (\<forall>asg w. list_all (crossOk asg w) l' \<longleftrightarrow> crossFits (x # xs) asg i w)"
    if mi: "m i = Some l" for i l
  proof -
    define na where "na = (if ca x = i then [\<lparr>otherId = cb x, idxThis = cia x, idxOther = cib x\<rparr>] else [])"
    define nb where "nb = (if cb x = i then [\<lparr>otherId = ca x, idxThis = cib x, idxOther = cia x\<rparr>] else [])"
    have "m1 i = Some (l @ na)" using mi la by (auto simp: m1_def na_def)
    then have "m2 i = Some (l @ na @ nb)" using lb by (auto simp: m2_def nb_def)
    with m'(3) obtain l' where l': "m' i = Some ((l @ na @ nb) @ l')"
      "\<forall>asg w. list_all (crossOk asg w) l' \<longleftrightarrow> crossFits xs asg i w"
      by blast
    have "list_all (crossOk asg w) (na @ nb @ l') \<longleftrightarrow> crossFits (x # xs) asg i w" for asg w
      using l'(2) by (auto simp: na_def nb_def crossFits_def)
    with l'(1) show ?thesis by (intro exI [of _ "na @ nb @ l'"]) simp
  qed
  with step m'(1,2) dom2 show ?case by auto
qed

subsection \<open>The search\<close>

lemma solveJS_env:
  assumes "computeSlots g = Inr ss"
  shows "\<exists>fx cm. fixedAll up g ss Map.empty = Inr fx \<and>
           addCrosses (buildCrosses ss) (initCrossing ss) = Inr cm \<and>
           puzzle up g wordList ss
             \<lparr>slots = ss, byLen = indexByLen wordList, fixed = fx, crossingMap = cm\<rparr>"
proof -
  from computeSlots_facts [OF assms] have ids: "map sid ss = [0..<length ss]"
    and cells: "\<forall>s\<in>set ss. 2 \<le> slen s \<and> (\<forall>k<slen s. openAt g (cellOf s k))"
    by simp_all
  from ids have so: "sorted_wrt (<) (map sid ss)" and di: "distinct (map sid ss)" by simp_all
  have "\<forall>s\<in>set ss. \<forall>k<slen s. \<exists>x. cellAt g (fst (cellOf s k)) (snd (cellOf s k)) = Inr x"
    using cells by (auto simp: openAt_def cellAt_def)
  from fixedAll_spec [OF di this, of up Map.empty] obtain fx where
    fx: "fixedAll up g ss Map.empty = Inr fx"
      "\<forall>s\<in>set ss. \<exists>l. fx (sid s) = Some l \<and>
          (\<forall>w. list_all (\<lambda>(i, c). charAt w i = Some c) l \<longleftrightarrow> fitsFixed up g s w)"
    by blast
  have cr: "ca x \<noteq> cb x \<and> (\<exists>s\<in>set ss. sid s = ca x \<and> cia x < slen s) \<and>
      (\<exists>t\<in>set ss. sid t = cb x \<and> cib x < slen t)" if "x \<in> set (buildCrosses ss)" for x
  proof -
    from that obtain s t where st: "before ss s t" "cia x < slen s" "cib x < slen t"
      "ca x = sid s" "cb x = sid t"
      unfolding crosses_iff by blast
    from st(1) have "s \<in> set ss" "t \<in> set ss" "sid s < sid t"
      unfolding before_sorted [OF so] by simp_all
    with st show ?thesis by auto
  qed
  have "ca x \<in> dom (initCrossing ss) \<and> cb x \<in> dom (initCrossing ss)"
    if "x \<in> set (buildCrosses ss)" for x
  proof -
    from cr [OF that] obtain s t where "s \<in> set ss" "sid s = ca x" "t \<in> set ss" "sid t = cb x"
      by blast
    then have "ca x \<in> sid ` set ss" "cb x \<in> sid ` set ss" by (metis imageI)+
    then show ?thesis by (simp add: initCrossing_eq dom_def)
  qed
  then have "\<forall>x\<in>set (buildCrosses ss). ca x \<in> dom (initCrossing ss) \<and> cb x \<in> dom (initCrossing ss)"
    by blast
  from addCrosses_spec [OF this] obtain cm where
    cm: "addCrosses (buildCrosses ss) (initCrossing ss) = Inr cm"
      "\<forall>i l. initCrossing ss i = Some l \<longrightarrow>
          (\<exists>l'. cm i = Some (l @ l') \<and>
             (\<forall>asg w. list_all (crossOk asg w) l' \<longleftrightarrow> crossFits (buildCrosses ss) asg i w))"
    by blast
  let ?E = "\<lparr>slots = ss, byLen = indexByLen wordList, fixed = fx, crossingMap = cm\<rparr>"
  have dom: "domainFor ?E st s = Inr (candidates up g wordList ss st s)" if "s \<in> set ss" for s st
  proof -
    from fx(2) that obtain l where l: "fx (sid s) = Some l"
      "\<forall>w. list_all (\<lambda>(i, c). charAt w i = Some c) l \<longleftrightarrow> fitsFixed up g s w"
      by blast
    from that have "initCrossing ss (sid s) = Some []" by (simp add: initCrossing_eq)
    with cm(2) obtain l' where l': "cm (sid s) = Some l'"
      "\<forall>asg w. list_all (crossOk asg w) l' \<longleftrightarrow> crossFits (buildCrosses ss) asg (sid s) w"
      by fastforce
    have b: "(case byLen ?E (slen s) of None \<Rightarrow> [] | Some bucket \<Rightarrow> bucket) =
        filter (\<lambda>w. length w = slen s) wordList"
      by (simp add: indexByLen_eq)
    have "domainFor ?E st s =
        Inr (filter (\<lambda>w. w \<notin> used st \<and> list_all (\<lambda>(i, c). charAt w i = Some c) l \<and>
                         list_all (crossOk (assignment st) w) l')
               (case byLen ?E (slen s) of None \<Rightarrow> [] | Some bucket \<Rightarrow> bucket))"
      by (rule domainFor_pure) (simp_all add: l(1) l'(1))
    also have "\<dots> = Inr (candidates up g wordList ss st s)"
      unfolding b candidates_def using l(2) l'(2) by (auto intro!: filter_cong)
    finally show ?thesis .
  qed
  have "puzzle up g wordList ss ?E"
    unfolding puzzle_def using di cells cr dom by simp
  with fx(1) cm(1) show ?thesis by blast
qed

lemma search_Backtrack:
  "search E (Backtrack st) =
     (case pickNext E st of
        Inl e \<Rightarrow> Some (Inl e)
      | Inr None \<Rightarrow> Some (Inr (True, st))
      | Inr (Some s) \<Rightarrow>
          (case domainFor E st s of
             Inl e \<Rightarrow> Some (Inl e)
           | Inr d \<Rightarrow>
               if length d = 0 then Some (Inr (False, st)) else search E (ForOf s d st)))"
  by (subst search.simps) simp

lemma search_ForOf_Nil: "search E (ForOf s [] st) = Some (Inr (False, st))"
  by (subst search.simps) simp

lemma search_ForOf_Cons:
  "search E (ForOf s (w # wl) st) =
     Option.bind (search E (Backtrack (assign s w st)))
       (\<lambda>res. case res of
                 Inl e \<Rightarrow> Some (Inl e)
               | Inr (ok, st') \<Rightarrow>
                   if ok then Some (Inr (True, st'))
                   else search E (ForOf s wl (unassign s w st')))"
  by (subst search.simps) simp

lemma assigned_nonempty:
  assumes "puzzle up g wordList ss E" "consistent up g wordList ss st" "assignment st i = Some w"
  shows "w \<noteq> []"
proof -
  from assms(2,3) obtain s where "s \<in> set ss" "length w = slen s"
    unfolding consistent_def by blast
  moreover from this assms(1) have "2 \<le> slen s" unfolding puzzle_def by blast
  ultimately show ?thesis by auto
qed

lemma unassigned_iff:
  assumes "puzzle up g wordList ss E" "consistent up g wordList ss st"
  shows "unassigned st s \<longleftrightarrow> assignment st (sid s) = None"
  using assigned_nonempty [OF assms]
  by (cases "assignment st (sid s)") (auto simp: unassigned_def truthy_def)

lemma pick_cases:
  assumes P: "puzzle up g wordList ss E" and C: "consistent up g wordList ss st"
  shows "(pickNext E st = Inr None \<and> (\<forall>s\<in>set ss. assignment st (sid s) \<noteq> None)) \<or>
         (\<exists>s\<in>set ss. pickNext E st = Inr (Some s) \<and> assignment st (sid s) = None)"
proof -
  from P have sl: "slots E = ss" by (simp add: puzzle_def)
  have noerr: "\<forall>s\<in>set ss. unassigned st s \<longrightarrow> (\<exists>d. domainFor E st s = Inr d)"
    using P by (simp add: puzzle_def)
  have pn: "pickNext E st =
      Inr (case filter (unassigned st) ss of
             [] \<Rightarrow> None
           | x # xs \<Rightarrow> Some (arg_min_list (sizeOf E st) (x # xs)))"
    unfolding pickNext_def sl using noerr by (subst pickLoop_argmin) simp_all
  show ?thesis
  proof (cases "filter (unassigned st) ss")
    case Nil
    then have "\<forall>s\<in>set ss. \<not> unassigned st s" by (simp add: filter_empty_conv)
    with pn Nil show ?thesis by (simp add: unassigned_iff [OF P C])
  next
    case (Cons x xs)
    let ?m = "arg_min_list (sizeOf E st) (x # xs)"
    have "?m \<in> set (x # xs)" by (rule arg_min_list_in) simp
    then have "?m \<in> set (filter (unassigned st) ss)" unfolding Cons .
    then have "?m \<in> set ss" "assignment st (sid ?m) = None"
      by (simp_all add: unassigned_iff [OF P C])
    with pn Cons show ?thesis by (intro disjI2 bexI [of _ ?m]) simp_all
  qed
qed

lemma unassign_assign:
  "assignment st (sid s) = None \<Longrightarrow> w \<notin> used st \<Longrightarrow> unassign s w (assign s w st) = st"
  by (cases st) (auto simp: unassign_def assign_def)

lemma filter_fewer:
  "x \<in> set xs \<Longrightarrow> P x \<Longrightarrow> \<not> Q x \<Longrightarrow> (\<And>y. Q y \<Longrightarrow> P y) \<Longrightarrow>
     length (filter Q xs) < length (filter P xs)"
proof (induction xs)
  case Nil
  then show ?case by simp
next
  case (Cons y ys)
  have le: "length (filter Q ys) \<le> length (filter P ys)"
    using Cons.prems(4) by (induction ys) auto
  show ?case
  proof (cases "x = y")
    case True
    with Cons.prems le show ?thesis by (simp add: less_Suc_eq_le)
  next
    case False
    with Cons have "length (filter Q ys) < length (filter P ys)" by simp
    with Cons.prems(4) [of y] show ?thesis by auto
  qed
qed

lemma remaining_assign:
  assumes "s \<in> set ss" "assignment st (sid s) = None"
  shows "remaining ss (assign s w st) < remaining ss st"
  unfolding remaining_def
  by (rule filter_fewer [OF assms(1)]) (use assms(2) in \<open>auto simp: assign_def split: if_splits\<close>)

lemma assigned_slot:
  assumes P: "puzzle up g wordList ss E" and C: "consistent up g wordList ss st"
    and s: "s \<in> set ss" "assignment st (sid s) = Some w"
  shows "w \<in> set wordList \<and> length w = slen s \<and> fitsFixed up g s w"
proof -
  from C s(2) obtain t where t: "t \<in> set ss" "sid t = sid s" "w \<in> set wordList"
    "length w = slen t" "fitsFixed up g t w"
    unfolding consistent_def by blast
  from P have "inj_on sid (set ss)" by (simp add: puzzle_def distinct_map)
  with t(1,2) s(1) have "t = s" by (auto dest: inj_onD)
  with t show ?thesis by simp
qed

lemma assign_consistent:
  assumes P: "puzzle up g wordList ss E" and C: "consistent up g wordList ss st"
    and s: "s \<in> set ss" "assignment st (sid s) = None"
    and w: "w \<in> set (candidates up g wordList ss st s)"
  shows "consistent up g wordList ss (assign s w st)"
proof -
  let ?asg = "assignment st"
  from w have wl: "w \<in> set wordList" "length w = slen s" "w \<notin> used st" "fitsFixed up g s w"
    and cf: "crossFits (buildCrosses ss) ?asg (sid s) w"
    by (simp_all add: candidates_def)
  from C have I1: "\<And>i v. ?asg i = Some v \<Longrightarrow>
        \<exists>t\<in>set ss. sid t = i \<and> v \<in> set wordList \<and> length v = slen t \<and> fitsFixed up g t v"
    and I2: "used st = ran ?asg"
    and I3: "inj_on ?asg (dom ?asg)"
    and I4: "\<And>x wa wb. x \<in> set (buildCrosses ss) \<Longrightarrow> ?asg (ca x) = Some wa \<Longrightarrow>
        ?asg (cb x) = Some wb \<Longrightarrow> charAt wa (cia x) = charAt wb (cib x)"
    unfolding consistent_def by blast+
  have a: "assignment (assign s w st) = ?asg(sid s \<mapsto> w)"
    and u: "used (assign s w st) = insert w (used st)"
    by (simp_all add: assign_def)
  have 1: "\<exists>t\<in>set ss. sid t = i \<and> v \<in> set wordList \<and> length v = slen t \<and> fitsFixed up g t v"
    if "(?asg(sid s \<mapsto> w)) i = Some v" for i v
  proof (cases "i = sid s")
    case True
    with that have "v = w" by simp
    with True s(1) wl show ?thesis by (intro bexI [of _ s]) simp_all
  next
    case False
    with that have "?asg i = Some v" by simp
    then show ?thesis by (rule I1)
  qed
  have 2: "insert w (used st) = ran (?asg(sid s \<mapsto> w))"
    using s(2) I2 by simp
  have notin: "?asg i \<noteq> Some w" for i
    using wl(3) I2 by (auto simp: ran_def)
  have 3: "inj_on (?asg(sid s \<mapsto> w)) (dom (?asg(sid s \<mapsto> w)))"
  proof (rule inj_onI)
    fix i j
    assume ij: "i \<in> dom (?asg(sid s \<mapsto> w))" "j \<in> dom (?asg(sid s \<mapsto> w))"
      "(?asg(sid s \<mapsto> w)) i = (?asg(sid s \<mapsto> w)) j"
    show "i = j"
    proof (cases "i = sid s"; cases "j = sid s")
      assume "i = sid s" "j = sid s"
      then show ?thesis by simp
    next
      assume "i = sid s" "j \<noteq> sid s"
      with ij(3) notin [of j] show ?thesis by simp
    next
      assume "i \<noteq> sid s" "j = sid s"
      with ij(3) notin [of i] show ?thesis by simp
    next
      assume n: "i \<noteq> sid s" "j \<noteq> sid s"
      with ij have "i \<in> dom ?asg" "j \<in> dom ?asg" "?asg i = ?asg j" by auto
      with I3 show ?thesis by (auto dest: inj_onD)
    qed
  qed
  have 4: "charAt wa (cia x) = charAt wb (cib x)"
    if x: "x \<in> set (buildCrosses ss)" and wa: "(?asg(sid s \<mapsto> w)) (ca x) = Some wa"
      and wb: "(?asg(sid s \<mapsto> w)) (cb x) = Some wb" for x wa wb
  proof -
    from P x have ne: "ca x \<noteq> cb x" unfolding puzzle_def by blast
    show ?thesis
    proof (cases "ca x = sid s")
      case True
      with wa ne wb have e: "wa = w" "?asg (cb x) = Some wb" by auto
      from assigned_nonempty [OF P C e(2)] have "wb \<noteq> []" .
      moreover from cf x True have "crossOk ?asg w \<lparr>otherId = cb x, idxThis = cia x, idxOther = cib x\<rparr>"
        unfolding crossFits_def by blast
      ultimately show ?thesis using e by (simp add: crossOk_def)
    next
      case False
      with wa have a: "?asg (ca x) = Some wa" by simp
      show ?thesis
      proof (cases "cb x = sid s")
        case True
        with wb have e: "wb = w" by simp
        from assigned_nonempty [OF P C a] have "wa \<noteq> []" .
        moreover from cf x True have "crossOk ?asg w \<lparr>otherId = ca x, idxThis = cib x, idxOther = cia x\<rparr>"
          unfolding crossFits_def by blast
        ultimately show ?thesis using e a by (simp add: crossOk_def)
      next
        case False
        with wb have "?asg (cb x) = Some wb" by simp
        with I4 [OF x a] show ?thesis .
      qed
    qed
  qed
  show ?thesis
    unfolding consistent_def a u using 1 2 3 4 by blast
qed

lemma solution_candidate:
  assumes P: "puzzle up g wordList ss E" and C: "consistent up g wordList ss st"
    and S: "solution up g wordList ss m" and sub: "assignment st \<subseteq>\<^sub>m m"
    and s: "s \<in> set ss" "assignment st (sid s) = None"
  shows "\<exists>w. m (sid s) = Some w \<and> w \<in> set (candidates up g wordList ss st s)"
proof -
  let ?asg = "assignment st"
  from S s(1) obtain w where w: "m (sid s) = Some w" "w \<in> set wordList" "length w = slen s"
    "fitsFixed up g s w"
    unfolding solution_def by blast
  have ext: "m i = Some v" if "?asg i = Some v" for i v
    using sub that by (auto simp: map_le_def dom_def)
  have nu: "w \<notin> used st"
  proof
    assume "w \<in> used st"
    with C obtain i where i: "?asg i = Some w" unfolding consistent_def by (auto simp: ran_def)
    with C obtain t where t: "t \<in> set ss" "sid t = i" unfolding consistent_def by blast
    from i s(2) have "i \<noteq> sid s" by auto
    with S s(1) t have "m (sid t) \<noteq> m (sid s)" unfolding solution_def by blast
    with ext [OF i] t(2) w(1) show False by simp
  qed
  have cf: "crossFits (buildCrosses ss) ?asg (sid s) w"
    unfolding crossFits_def
  proof (intro ballI conjI impI)
    fix x assume x: "x \<in> set (buildCrosses ss)" and a: "ca x = sid s"
    from S x obtain wa wb where sol: "m (ca x) = Some wa" "m (cb x) = Some wb"
      "cia x < length wa" "cib x < length wb" "wa ! cia x = wb ! cib x"
      unfolding solution_def by blast
    from sol(1) a w(1) have "wa = w" by simp
    with sol ext show "crossOk ?asg w \<lparr>otherId = cb x, idxThis = cia x, idxOther = cib x\<rparr>"
      by (cases "?asg (cb x)") (auto simp: crossOk_def charAt_def)
  next
    fix x assume x: "x \<in> set (buildCrosses ss)" and b: "cb x = sid s"
    from S x obtain wa wb where sol: "m (ca x) = Some wa" "m (cb x) = Some wb"
      "cia x < length wa" "cib x < length wb" "wa ! cia x = wb ! cib x"
      unfolding solution_def by blast
    from sol(2) b w(1) have "wb = w" by simp
    with sol ext show "crossOk ?asg w \<lparr>otherId = ca x, idxThis = cib x, idxOther = cia x\<rparr>"
      by (cases "?asg (ca x)") (auto simp: crossOk_def charAt_def)
  qed
  from w nu cf show ?thesis by (simp add: candidates_def)
qed

lemma total_solution:
  assumes P: "puzzle up g wordList ss E" and C: "consistent up g wordList ss st"
    and T: "\<forall>s\<in>set ss. assignment st (sid s) \<noteq> None"
  shows "solution up g wordList ss (assignment st) \<and> dom (assignment st) = sid ` set ss"
proof -
  let ?asg = "assignment st"
  have 1: "\<exists>w. ?asg (sid s) = Some w \<and> w \<in> set wordList \<and> length w = slen s \<and> fitsFixed up g s w"
    if "s \<in> set ss" for s
  proof -
    from T that obtain w where "?asg (sid s) = Some w" by auto
    with assigned_slot [OF P C that this] show ?thesis by simp
  qed
  have 2: "?asg (sid s) \<noteq> ?asg (sid t)" if "s \<in> set ss" "t \<in> set ss" "sid s \<noteq> sid t" for s t
  proof
    assume e: "?asg (sid s) = ?asg (sid t)"
    from T that have "sid s \<in> dom ?asg" "sid t \<in> dom ?asg" by auto
    moreover from C have "inj_on ?asg (dom ?asg)" unfolding consistent_def by blast
    ultimately have "sid s = sid t" using e by (auto dest: inj_onD)
    with that(3) show False by simp
  qed
  have 3: "\<exists>wa wb. ?asg (ca x) = Some wa \<and> ?asg (cb x) = Some wb \<and>
          cia x < length wa \<and> cib x < length wb \<and> wa ! cia x = wb ! cib x"
    if x: "x \<in> set (buildCrosses ss)" for x
  proof -
    from P x obtain s t where st: "s \<in> set ss" "sid s = ca x" "cia x < slen s"
      "t \<in> set ss" "sid t = cb x" "cib x < slen t"
      unfolding puzzle_def by blast
    from 1 [OF st(1)] 1 [OF st(4)] st obtain wa wb where
      ab: "?asg (ca x) = Some wa" "length wa = slen s" "?asg (cb x) = Some wb" "length wb = slen t"
      by auto
    from C x ab(1,3) have "charAt wa (cia x) = charAt wb (cib x)"
      unfolding consistent_def by blast
    with ab st(3,6) show ?thesis by (simp add: charAt_def)
  qed
  have 4: "dom ?asg = sid ` set ss"
  proof
    show "dom ?asg \<subseteq> sid ` set ss"
    proof
      fix i assume "i \<in> dom ?asg"
      then obtain w where "?asg i = Some w" by auto
      with C obtain s where "s \<in> set ss" "sid s = i" unfolding consistent_def by blast
      then show "i \<in> sid ` set ss" by auto
    qed
    show "sid ` set ss \<subseteq> dom ?asg" using T by auto
  qed
  show ?thesis unfolding solution_def using 1 2 3 4 by blast
qed

lemma search_total:
  assumes P: "puzzle up g wordList ss E"
  shows "consistent up g wordList ss st \<Longrightarrow>
     \<exists>ok st'. search E (Backtrack st) = Some (Inr (ok, st')) \<and>
       (if ok then succeeds up g wordList ss st st'
        else st' = st \<and> \<not> (\<exists>m. solution up g wordList ss m \<and> assignment st \<subseteq>\<^sub>m m))"
proof (induction "remaining ss st" arbitrary: st rule: less_induct)
  case less
  note C = less.prems
  have loop: "\<exists>ok st'. search E (ForOf s wl st) = Some (Inr (ok, st')) \<and>
       (if ok then succeeds up g wordList ss st st'
        else st' = st \<and>
          \<not> (\<exists>m. solution up g wordList ss m \<and> assignment st \<subseteq>\<^sub>m m \<and>
                 (\<exists>w\<in>set wl. m (sid s) = Some w)))"
    if s: "s \<in> set ss" "assignment st (sid s) = None"
      and sub: "set wl \<subseteq> set (candidates up g wordList ss st s)" for s wl
    using sub
  proof (induction wl)
    case Nil
    show ?case
      by (intro exI [of _ False] exI [of _ st]) (simp add: search_ForOf_Nil)
  next
    case (Cons w wl)
    from Cons.prems have w: "w \<in> set (candidates up g wordList ss st s)"
      and rest: "set wl \<subseteq> set (candidates up g wordList ss st s)"
      by simp_all
    let ?st1 = "assign s w st"
    have C1: "consistent up g wordList ss ?st1" by (rule assign_consistent [OF P C s w])
    have le: "assignment st \<subseteq>\<^sub>m assignment ?st1"
      using s(2) by (auto simp: map_le_def assign_def)
    from less.hyps [OF remaining_assign [OF s] C1] obtain ok st' where
      r: "search E (Backtrack ?st1) = Some (Inr (ok, st'))"
        "if ok then succeeds up g wordList ss ?st1 st'
         else st' = ?st1 \<and> \<not> (\<exists>m. solution up g wordList ss m \<and> assignment ?st1 \<subseteq>\<^sub>m m)"
      by blast
    show ?case
    proof (cases ok)
      case True
      with r(2) have "succeeds up g wordList ss ?st1 st'" by simp
      with le have "succeeds up g wordList ss st st'"
        unfolding succeeds_def by (auto intro: map_le_trans)
      with True r(1) show ?thesis
        by (intro exI [of _ True] exI [of _ st']) (simp add: search_ForOf_Cons)
    next
      case False
      with r(2) have st': "st' = ?st1"
        and no1: "\<not> (\<exists>m. solution up g wordList ss m \<and> assignment ?st1 \<subseteq>\<^sub>m m)"
        by simp_all
      from w have "w \<notin> used st" by (simp add: candidates_def)
      with s(2) have undone: "unassign s w ?st1 = st" by (rule unassign_assign)
      have step: "search E (ForOf s (w # wl) st) = search E (ForOf s wl st)"
        using r(1) False st' undone by (simp add: search_ForOf_Cons)
      from Cons.IH [OF rest] obtain ok2 st2 where
        r2: "search E (ForOf s wl st) = Some (Inr (ok2, st2))"
          "if ok2 then succeeds up g wordList ss st st2
           else st2 = st \<and>
             \<not> (\<exists>m. solution up g wordList ss m \<and> assignment st \<subseteq>\<^sub>m m \<and>
                    (\<exists>w\<in>set wl. m (sid s) = Some w))"
        by blast
      have now: "\<not> (solution up g wordList ss m \<and> assignment st \<subseteq>\<^sub>m m \<and> m (sid s) = Some w)" for m
      proof
        assume h: "solution up g wordList ss m \<and> assignment st \<subseteq>\<^sub>m m \<and> m (sid s) = Some w"
        then have "assignment ?st1 \<subseteq>\<^sub>m m"
          by (auto simp: map_le_def assign_def dom_def)
        with h no1 show False by blast
      qed
      show ?thesis
      proof (cases ok2)
        case True
        with r2 step show ?thesis by (intro exI [of _ True] exI [of _ st2]) simp
      next
        case False
        with r2(2) have "st2 = st"
          and "\<not> (\<exists>m. solution up g wordList ss m \<and> assignment st \<subseteq>\<^sub>m m \<and>
                    (\<exists>w\<in>set wl. m (sid s) = Some w))"
          by simp_all
        with now have "\<not> (\<exists>m. solution up g wordList ss m \<and> assignment st \<subseteq>\<^sub>m m \<and>
                    (\<exists>v\<in>set (w # wl). m (sid s) = Some v))"
          by auto
        with r2(1) step False \<open>st2 = st\<close> show ?thesis
          by (intro exI [of _ False] exI [of _ st]) simp
      qed
    qed
  qed
  from pick_cases [OF P C] show ?case
  proof
    assume a: "pickNext E st = Inr None \<and> (\<forall>s\<in>set ss. assignment st (sid s) \<noteq> None)"
    then have "succeeds up g wordList ss st st" using C by (simp add: succeeds_def)
    with a show ?thesis
      by (intro exI [of _ True] exI [of _ st]) (simp add: search_Backtrack)
  next
    assume "\<exists>s\<in>set ss. pickNext E st = Inr (Some s) \<and> assignment st (sid s) = None"
    then obtain s where s: "s \<in> set ss" "pickNext E st = Inr (Some s)" "assignment st (sid s) = None"
      by blast
    let ?d = "candidates up g wordList ss st s"
    from P s(1) have d: "domainFor E st s = Inr ?d" unfolding puzzle_def by blast
    have cand: "\<exists>w\<in>set ?d. m (sid s) = Some w"
      if "solution up g wordList ss m" "assignment st \<subseteq>\<^sub>m m" for m
      using solution_candidate [OF P C that s(1,3)] by blast
    show ?thesis
    proof (cases "?d = []")
      case True
      with cand have "\<not> (\<exists>m. solution up g wordList ss m \<and> assignment st \<subseteq>\<^sub>m m)" by auto
      with s(2) d True show ?thesis
        by (intro exI [of _ False] exI [of _ st]) (simp add: search_Backtrack)
    next
      case False
      then have step: "search E (Backtrack st) = search E (ForOf s ?d st)"
        using s(2) d by (simp add: search_Backtrack)
      from loop [OF s(1,3), of ?d] obtain ok st' where
        r: "search E (ForOf s ?d st) = Some (Inr (ok, st'))"
          "if ok then succeeds up g wordList ss st st'
           else st' = st \<and>
             \<not> (\<exists>m. solution up g wordList ss m \<and> assignment st \<subseteq>\<^sub>m m \<and>
                    (\<exists>w\<in>set ?d. m (sid s) = Some w))"
        by blast
      show ?thesis
      proof (cases ok)
        case True
        with r step show ?thesis by (intro exI [of _ True] exI [of _ st']) simp
      next
        case False
        with r(2) have "st' = st"
          and "\<not> (\<exists>m. solution up g wordList ss m \<and> assignment st \<subseteq>\<^sub>m m \<and>
                    (\<exists>w\<in>set ?d. m (sid s) = Some w))"
          by simp_all
        with cand have "\<not> (\<exists>m. solution up g wordList ss m \<and> assignment st \<subseteq>\<^sub>m m)" by blast
        with r(1) step False \<open>st' = st\<close> show ?thesis
          by (intro exI [of _ False] exI [of _ st]) simp
      qed
    qed
  qed
qed

lemma solveJS_spec:
  assumes cs: "computeSlots g = Inr ss" and ne: "ss \<noteq> []"
  shows "(\<exists>m. solveJS up g wordList = Some (Inr (Some m)) \<and> dom m = sid ` set ss \<and>
            solution up g wordList ss m) \<or>
         (solveJS up g wordList = Some (Inr None) \<and> \<not> (\<exists>m. solution up g wordList ss m))"
proof -
  from solveJS_env [OF cs, of up wordList] obtain fx cm where
    e: "fixedAll up g ss Map.empty = Inr fx"
      "addCrosses (buildCrosses ss) (initCrossing ss) = Inr cm"
      "puzzle up g wordList ss \<lparr>slots = ss, byLen = indexByLen wordList, fixed = fx, crossingMap = cm\<rparr>"
    by blast
  let ?E = "\<lparr>slots = ss, byLen = indexByLen wordList, fixed = fx, crossingMap = cm\<rparr>"
  let ?st = "\<lparr>assignment = Map.empty, used = {}\<rparr>"
  have C: "consistent up g wordList ss ?st" by (simp add: consistent_def)
  from search_total [OF e(3) C] obtain ok st' where
    r: "search ?E (Backtrack ?st) = Some (Inr (ok, st'))"
      "if ok then succeeds up g wordList ss ?st st'
       else st' = ?st \<and> \<not> (\<exists>m. solution up g wordList ss m \<and> assignment ?st \<subseteq>\<^sub>m m)"
    by blast
  have js: "solveJS up g wordList = Some (Inr (if ok then Some (assignment st') else None))"
    using cs ne e(1,2) r(1) by (simp add: solveJS_def backtrack_def)
  show ?thesis
  proof (cases ok)
    case True
    with r(2) have "consistent up g wordList ss st'" "\<forall>s\<in>set ss. assignment st' (sid s) \<noteq> None"
      by (simp_all add: succeeds_def)
    from total_solution [OF e(3) this] js True show ?thesis by simp
  next
    case False
    with r(2) have "\<not> (\<exists>m. solution up g wordList ss m)" by simp
    with js False show ?thesis by simp
  qed
qed

text \<open>
  C1: when \<^verbatim>\<open>solveJS\<close> returns a mapping, the keys of the mapping are the identifiers
  of the slots of the grid, one word for each slot; every word is a word of the list, has
  the length of its slot and the letters already fixed in the slot; two different slots
  have different words; and for every crossing constraint the two words have the same
  character at the two offsets.
\<close>

theorem solveJS_sound:
  "solveJS up g wordList = Some (Inr (Some m)) \<Longrightarrow>
     \<exists>ss. computeSlots g = Inr ss \<and> distinct (map sid ss) \<and> dom m = sid ` set ss \<and>
       solution up g wordList ss m"
proof -
  assume js: "solveJS up g wordList = Some (Inr (Some m))"
  then obtain ss where cs: "computeSlots g = Inr ss"
    by (cases "computeSlots g") (auto simp: solveJS_def)
  with js have ne: "ss \<noteq> []" by (auto simp: solveJS_def)
  from computeSlots_facts [OF cs] have "map sid ss = [0..<length ss]" by simp
  then have "distinct (map sid ss)" by simp
  with solveJS_spec [OF cs ne, of up wordList] js cs show ?thesis by auto
qed

theorem solveJS_sound_witness:
  "(case solveJS upperASCII testGrid1 [''CAT'', ''DOG'', ''AXO''] of
      Some (Inr (Some m)) \<Rightarrow>
        m 0 = Some ''CAT'' \<and> m 1 = Some ''DOG'' \<and> m 2 = Some ''AXO'' \<and>
        dom m = {0, 1, 2} \<and>
        solution upperASCII testGrid1 [''CAT'', ''DOG'', ''AXO'']
          [\<lparr>sid = 0, sr = 0, sc = 0, slen = 3, sdir = H\<rparr>,
           \<lparr>sid = 1, sr = 2, sc = 0, slen = 3, sdir = H\<rparr>,
           \<lparr>sid = 2, sr = 0, sc = 1, slen = 3, sdir = V\<rparr>] m
    | _ \<Rightarrow> False)"
proof -
  let ?ss = "[\<lparr>sid = 0, sr = 0, sc = 0, slen = 3, sdir = H\<rparr>,
           \<lparr>sid = 1, sr = 2, sc = 0, slen = 3, sdir = H\<rparr>,
           \<lparr>sid = 2, sr = 0, sc = 1, slen = 3, sdir = V\<rparr>]"
  have cs: "computeSlots testGrid1 = Inr ?ss" by code_simp
  have "case solveJS upperASCII testGrid1 [''CAT'', ''DOG'', ''AXO''] of
      Some (Inr (Some m)) \<Rightarrow> m 0 = Some ''CAT'' \<and> m 1 = Some ''DOG'' \<and> m 2 = Some ''AXO''
    | _ \<Rightarrow> False"
    by code_simp
  then obtain m where m: "solveJS upperASCII testGrid1 [''CAT'', ''DOG'', ''AXO''] = Some (Inr (Some m))"
    "m 0 = Some ''CAT''" "m 1 = Some ''DOG''" "m 2 = Some ''AXO''"
    by (auto split: option.splits sum.splits)
  from solveJS_sound [OF m(1)] cs
  have "dom m = sid ` set ?ss" "solution upperASCII testGrid1 [''CAT'', ''DOG'', ''AXO''] ?ss m"
    by auto
  moreover have "sid ` set ?ss = {0, 1, 2}" by auto
  ultimately show ?thesis using m by simp
qed

text \<open>
  C2: on a grid with at least one slot, \<^verbatim>\<open>solveJS\<close> returns, and it returns
  \<^verbatim>\<open>null\<close> exactly when no assignment solves the puzzle; when one does, it returns a
  mapping, and the mapping solves the puzzle.
\<close>

theorem solveJS_complete:
  "computeSlots g = Inr ss \<Longrightarrow> ss \<noteq> [] \<Longrightarrow>
     (solveJS up g wordList = Some (Inr None) \<longleftrightarrow> \<not> (\<exists>m. solution up g wordList ss m)) \<and>
     ((\<exists>m. solution up g wordList ss m) \<longrightarrow>
        (\<exists>m. solveJS up g wordList = Some (Inr (Some m)) \<and> solution up g wordList ss m))"
proof -
  assume cs: "computeSlots g = Inr ss" and ne: "ss \<noteq> []"
  from solveJS_spec [OF cs ne, of up wordList] show ?thesis by auto
qed

theorem solveJS_complete_witness:
  "computeSlots testGrid1 =
     Inr [\<lparr>sid = 0, sr = 0, sc = 0, slen = 3, sdir = H\<rparr>,
          \<lparr>sid = 1, sr = 2, sc = 0, slen = 3, sdir = H\<rparr>,
          \<lparr>sid = 2, sr = 0, sc = 1, slen = 3, sdir = V\<rparr>] \<and>
   solveJS upperASCII testGrid1 [''CAT'', ''DOG'', ''AAA''] = Some (Inr None) \<and>
   \<not> (\<exists>m. solution upperASCII testGrid1 [''CAT'', ''DOG'', ''AAA'']
          [\<lparr>sid = 0, sr = 0, sc = 0, slen = 3, sdir = H\<rparr>,
           \<lparr>sid = 1, sr = 2, sc = 0, slen = 3, sdir = H\<rparr>,
           \<lparr>sid = 2, sr = 0, sc = 1, slen = 3, sdir = V\<rparr>] m) \<and>
   solveJS upperASCII testGrid1 [''CAT'', ''DOG'', ''AXO''] \<noteq> Some (Inr None)"
proof -
  let ?ss = "[\<lparr>sid = 0, sr = 0, sc = 0, slen = 3, sdir = H\<rparr>,
           \<lparr>sid = 1, sr = 2, sc = 0, slen = 3, sdir = H\<rparr>,
           \<lparr>sid = 2, sr = 0, sc = 1, slen = 3, sdir = V\<rparr>]"
  have cs: "computeSlots testGrid1 = Inr ?ss" by code_simp
  have ne: "?ss \<noteq> []" by simp
  have "case solveJS upperASCII testGrid1 [''CAT'', ''DOG'', ''AAA''] of
      Some (Inr None) \<Rightarrow> True | _ \<Rightarrow> False"
    by code_simp
  then have none: "solveJS upperASCII testGrid1 [''CAT'', ''DOG'', ''AAA''] = Some (Inr None)"
    by (auto split: option.splits sum.splits)
  have "case solveJS upperASCII testGrid1 [''CAT'', ''DOG'', ''AXO''] of
      Some (Inr (Some m)) \<Rightarrow> True | _ \<Rightarrow> False"
    by code_simp
  then have some: "solveJS upperASCII testGrid1 [''CAT'', ''DOG'', ''AXO''] \<noteq> Some (Inr None)"
    by (auto split: option.splits sum.splits)
  from solveJS_complete [OF cs ne, of upperASCII "[''CAT'', ''DOG'', ''AAA'']"] none
  have "\<not> (\<exists>m. solution upperASCII testGrid1 [''CAT'', ''DOG'', ''AAA''] ?ss m)" by simp
  with cs none some show ?thesis by simp
qed

subsection \<open>Malformed grids\<close>

text \<open>
  C6, as the claim states it, fails: on a grid that is not rectangular, the second row
  longer than the first, \<^verbatim>\<open>solveJS\<close> returns \<^verbatim>\<open>null\<close> as it does when there is
  no solution, and signals nothing.
\<close>

theorem solveJS_ragged_counterexample:
  "\<not> rectangular raggedLong \<and> solveJS upperASCII raggedLong [''AB''] = Some (Inr None)"
proof -
  have "\<not> rectangular raggedLong" by (simp add: rectangular_def raggedLong_def)
  moreover have "case solveJS upperASCII raggedLong [''AB''] of Some (Inr None) \<Rightarrow> True | _ \<Rightarrow> False"
    by code_simp
  then have "solveJS upperASCII raggedLong [''AB''] = Some (Inr None)"
    by (auto split: option.splits sum.splits)
  ultimately show ?thesis by simp
qed

text \<open>
  C6, amended: \<^verbatim>\<open>solveJS\<close> validates nothing. It raises a \<^verbatim>\<open>TypeError\<close>, from
  slot extraction and so before the search, exactly when the grid has no row or has a row
  shorter than the first. On every other grid, rectangular or not, it returns
  \<^verbatim>\<open>null\<close> or a mapping, and it raises nothing else.
\<close>

theorem solveJS_malformed:
  "(solveJS up g wordList = Some (Inl TypeError) \<longleftrightarrow>
      g = [] \<or> (\<exists>row\<in>set g. length row < length (hd g))) \<and>
   ((\<exists>r. solveJS up g wordList = Some (Inr r)) \<longleftrightarrow>
      g \<noteq> [] \<and> (\<forall>row\<in>set g. length (hd g) \<le> length row)) \<and>
   solveJS up g wordList \<noteq> Some (Inl EngineError) \<and> solveJS up g wordList \<noteq> None"
proof (cases "computeSlots g")
  case (Inl e)
  then have e: "e = TypeError" by (rule computeSlots_TypeError)
  from Inl have "g = [] \<or> (\<exists>row\<in>set g. length row < length (hd g))"
    using computeSlots_fails_iff [of g] by blast
  moreover have "solveJS up g wordList = Some (Inl TypeError)"
    using Inl e by (simp add: solveJS_def)
  ultimately show ?thesis by (auto simp: not_le)
next
  case (Inr ss)
  from computeSlots_ok [OF Inr] have ok: "g \<noteq> [] \<and> (\<forall>row\<in>set g. length (hd g) \<le> length row)" .
  have "\<exists>r. solveJS up g wordList = Some (Inr r)"
  proof (cases "ss = []")
    case True
    with Inr show ?thesis by (simp add: solveJS_def)
  next
    case False
    from solveJS_spec [OF Inr False, of up wordList] show ?thesis by blast
  qed
  with ok show ?thesis by (auto simp: not_le)
qed

theorem solveJS_malformed_witness:
  "solveJS upperASCII raggedShort [''AB''] = Some (Inl TypeError) \<and>
   solveJS upperASCII [] [''AB''] = Some (Inl TypeError) \<and>
   solveJS upperASCII raggedLong [''AB''] \<noteq> Some (Inl TypeError)"
proof -
  have 1: "raggedShort = [] \<or> (\<exists>row\<in>set raggedShort. length row < length (hd raggedShort))"
    by (simp add: raggedShort_def)
  have 2: "\<not> (raggedLong = [] \<or> (\<exists>row\<in>set raggedLong. length row < length (hd raggedLong)))"
    by (simp add: raggedLong_def)
  from solveJS_malformed [of upperASCII raggedShort "[''AB'']"] 1
    solveJS_malformed [of upperASCII "[]" "[''AB'']"]
    solveJS_malformed [of upperASCII raggedLong "[''AB'']"] 2
  show ?thesis by simp
qed

subsection \<open>Projection\<close>

lemma copyRow_spec:
  assumes "\<forall>a\<in>set row. a < fresh h" "copyRow h row = (h1, row')"
  shows "row' = [fresh h..<fresh h + length row] \<and> fresh h1 = fresh h + length row \<and>
         (\<forall>a<fresh h. cells h1 a = cells h a) \<and>
         (\<forall>i<length row. cells h1 (fresh h + i) = cells h (row ! i))"
  using assms
proof (induction row arbitrary: h h1 row')
  case Nil
  then show ?case by simp
next
  case (Cons a as)
  define hA where "hA = \<lparr>cells = (cells h)(fresh h := cells h a), fresh = fresh h + 1\<rparr>"
  obtain h2 as' where r: "copyRow hA as = (h2, as')" by (cases "copyRow hA as")
  have sp: "spread h a = (hA, fresh h)" by (simp add: spread_def hA_def)
  from Cons.prems(2) have res: "h1 = h2" "row' = fresh h # as'"
    by (simp_all add: sp r)
  have v: "\<forall>b\<in>set as. b < fresh hA" using Cons.prems(1) by (auto simp: hA_def)
  from Cons.IH [OF v r] have ih: "as' = [fresh hA..<fresh hA + length as]"
    "fresh h2 = fresh hA + length as" "\<forall>b<fresh hA. cells h2 b = cells hA b"
    "\<forall>i<length as. cells h2 (fresh hA + i) = cells hA (as ! i)"
    by simp_all
  have fA: "fresh hA = fresh h + 1" by (simp add: hA_def)
  have 1: "row' = [fresh h..<fresh h + length (a # as)]"
    unfolding res ih(1) fA by (simp add: upt_conv_Cons del: upt_Suc)
  have 2: "fresh h1 = fresh h + length (a # as)" unfolding res ih(2) fA by simp
  have 3: "cells h1 b = cells h b" if "b < fresh h" for b
    using that ih(3) unfolding res fA by (simp add: hA_def)
  have 4: "cells h1 (fresh h + i) = cells h ((a # as) ! i)" if "i < length (a # as)" for i
  proof (cases i)
    case 0
    with ih(3) show ?thesis unfolding res fA by (simp add: hA_def)
  next
    case (Suc j)
    with that have j: "j < length as" by simp
    then have "as ! j < fresh h" using Cons.prems(1) by simp
    with ih(4) j Suc show ?thesis unfolding res fA by (simp add: hA_def)
  qed
  show ?case using 1 2 3 4 by blast
qed

lemma copyGrid_spec:
  assumes "\<forall>row\<in>set rg. \<forall>a\<in>set row. a < fresh h" "copyGrid h rg = (h1, filled)"
  shows "map length filled = map length rg \<and> fresh h \<le> fresh h1 \<and>
         (\<forall>a<fresh h. cells h1 a = cells h a) \<and>
         (\<forall>r<length rg. \<forall>c<length (rg ! r).
            fresh h \<le> filled ! r ! c \<and> filled ! r ! c < fresh h1 \<and>
            cells h1 (filled ! r ! c) = cells h (rg ! r ! c)) \<and>
         (\<forall>r c r' c'. r < length rg \<and> c < length (rg ! r) \<and> r' < length rg \<and>
            c' < length (rg ! r') \<and> filled ! r ! c = filled ! r' ! c' \<longrightarrow> r = r' \<and> c = c')"
  using assms
proof (induction rg arbitrary: h h1 filled)
  case Nil
  then show ?case by simp
next
  case (Cons row rows)
  obtain hA row' where a: "copyRow h row = (hA, row')" by (cases "copyRow h row")
  obtain h2 rows' where b: "copyGrid hA rows = (h2, rows')" by (cases "copyGrid hA rows")
  from Cons.prems(2) a b have res: "h1 = h2" "filled = row' # rows'" by simp_all
  have vr: "\<forall>a\<in>set row. a < fresh h" using Cons.prems(1) by simp
  from copyRow_spec [OF vr a] have ra: "row' = [fresh h..<fresh h + length row]"
    "fresh hA = fresh h + length row" "\<forall>a<fresh h. cells hA a = cells h a"
    "\<forall>i<length row. cells hA (fresh h + i) = cells h (row ! i)"
    by simp_all
  have v: "\<forall>row\<in>set rows. \<forall>a\<in>set row. a < fresh hA"
  proof (intro ballI)
    fix r a assume "r \<in> set rows" "a \<in> set r"
    with Cons.prems(1) have "a < fresh h" by simp
    then show "a < fresh hA" unfolding ra(2) by simp
  qed
  from Cons.IH [OF v b] have ih: "map length rows' = map length rows" "fresh hA \<le> fresh h2"
    "\<forall>a<fresh hA. cells h2 a = cells hA a"
    "\<forall>r<length rows. \<forall>c<length (rows ! r).
        fresh hA \<le> rows' ! r ! c \<and> rows' ! r ! c < fresh h2 \<and>
        cells h2 (rows' ! r ! c) = cells hA (rows ! r ! c)"
    "\<forall>r c r' c'. r < length rows \<and> c < length (rows ! r) \<and> r' < length rows \<and>
        c' < length (rows ! r') \<and> rows' ! r ! c = rows' ! r' ! c' \<longrightarrow> r = r' \<and> c = c'"
    by blast+
  have 1: "map length filled = map length (row # rows)" unfolding res using ra(1) ih(1) by simp
  have 2: "fresh h \<le> fresh h1" unfolding res using ra(2) ih(2) by simp
  have 3: "cells h1 a = cells h a" if "a < fresh h" for a
    using that ra(2,3) ih(3) unfolding res by simp
  have first: "filled ! 0 ! c = fresh h + c" if "c < length row" for c
    unfolding res ra(1) using that by simp
  have later: "filled ! Suc r = rows' ! r" for r unfolding res by simp
  have old: "rows ! r ! c < fresh h" if "r < length rows" "c < length (rows ! r)" for r c
  proof -
    from that have "rows ! r \<in> set rows" "rows ! r ! c \<in> set (rows ! r)" by simp_all
    with Cons.prems(1) show ?thesis by simp
  qed
  have 4: "fresh h \<le> filled ! r ! c \<and> filled ! r ! c < fresh h1 \<and>
      cells h1 (filled ! r ! c) = cells h ((row # rows) ! r ! c)"
    if "r < length (row # rows)" "c < length ((row # rows) ! r)" for r c
  proof (cases r)
    case 0
    with that have c: "c < length row" by simp
    have f: "filled ! 0 ! c = fresh h + c" using c by (rule first)
    have "fresh h + c < fresh hA" unfolding ra(2) using c by simp
    with ih(3) have "cells h2 (fresh h + c) = cells hA (fresh h + c)" by blast
    also have "\<dots> = cells h (row ! c)" using ra(4) c by blast
    finally have "cells h1 (filled ! 0 ! c) = cells h (row ! c)" unfolding res(1) f .
    moreover have "filled ! 0 ! c < fresh h1" unfolding f res(1) using ra(2) ih(2) c by simp
    ultimately show ?thesis unfolding 0 using f by simp
  next
    case (Suc j)
    with that have j: "j < length rows" "c < length (rows ! j)" by simp_all
    with ih(4) have k: "fresh hA \<le> rows' ! j ! c" "rows' ! j ! c < fresh h2"
      "cells h2 (rows' ! j ! c) = cells hA (rows ! j ! c)" by blast+
    have "cells hA (rows ! j ! c) = cells h (rows ! j ! c)"
      using ra(3) old [OF j] by blast
    with k show ?thesis unfolding Suc later res(1) using ra(2) by simp
  qed
  have 5: "r = r' \<and> c = c'"
    if "r < length (row # rows)" "c < length ((row # rows) ! r)" "r' < length (row # rows)"
      "c' < length ((row # rows) ! r')" "filled ! r ! c = filled ! r' ! c'" for r c r' c'
  proof (cases r; cases r')
    assume z: "r = 0" "r' = 0"
    with that have "c < length row" "c' < length row" by simp_all
    then have "filled ! 0 ! c = fresh h + c" "filled ! 0 ! c' = fresh h + c'"
      by (simp_all only: first)
    with that(5) z show ?thesis by simp
  next
    fix j assume z: "r = 0" "r' = Suc j"
    with that have c: "c < length row" and j: "j < length rows" "c' < length (rows ! j)"
      by simp_all
    from ih(4) j have "fresh hA \<le> rows' ! j ! c'" by blast
    moreover from first [OF c] have "filled ! 0 ! c < fresh hA" unfolding ra(2) using c by simp
    ultimately have "filled ! 0 ! c \<noteq> filled ! Suc j ! c'" unfolding later by simp
    with that(5) z show ?thesis by simp
  next
    fix j assume z: "r = Suc j" "r' = 0"
    with that have c: "c' < length row" and j: "j < length rows" "c < length (rows ! j)"
      by simp_all
    from ih(4) j have "fresh hA \<le> rows' ! j ! c" by blast
    moreover from first [OF c] have "filled ! 0 ! c' < fresh hA" unfolding ra(2) using c by simp
    ultimately have "filled ! Suc j ! c \<noteq> filled ! 0 ! c'" unfolding later by simp
    with that(5) z show ?thesis by simp
  next
    fix j j' assume z: "r = Suc j" "r' = Suc j'"
    with that have "j < length rows" "c < length (rows ! j)" "j' < length rows"
      "c' < length (rows ! j')" "rows' ! j ! c = rows' ! j' ! c'"
      by (simp_all add: later)
    with ih(5) have "j = j' \<and> c = c'" by blast
    with z show ?thesis by simp
  qed
  show ?case using 1 2 3 4 5 by blast
qed

lemma fillSlot_run:
  "fillSlot filled s w ks h = runWrites filled (map (\<lambda>k. (cellOf s k, charAt w k)) ks) h"
  by (induction ks arbitrary: h) (auto split: sum.splits)

lemma runWrites_append:
  "runWrites filled (ps @ qs) h =
     (case runWrites filled ps h of Inl e \<Rightarrow> Inl e | Inr h' \<Rightarrow> runWrites filled qs h')"
  by (induction ps arbitrary: h) (auto split: sum.splits)

lemma fillAll_run: "fillAll filled m ss h = runWrites filled (writes m ss) h"
proof (induction ss arbitrary: h)
  case Nil
  show ?case by (simp add: writes_def)
next
  case (Cons s ss)
  have w: "writes m (s # ss) = writesOf m s @ writes m ss" by (simp add: writes_def)
  show ?case
    unfolding w runWrites_append
    by (auto simp: writesOf_def fillSlot_run Cons.IH split: option.splits sum.splits)
qed

lemma runWrites_spec:
  assumes "\<forall>p\<in>set ps. fst (fst p) < length filled \<and> snd (fst p) < length (filled ! fst (fst p))"
  shows "\<exists>h'. runWrites filled ps h = Inr h' \<and> fresh h' = fresh h \<and>
           (\<forall>a. (\<forall>p\<in>set ps. target filled p \<noteq> a) \<longrightarrow> cells h' a = cells h a) \<and>
           (\<forall>a. (\<exists>p\<in>set ps. target filled p = a) \<longrightarrow>
                (\<exists>p\<in>set ps. target filled p = a \<and> cells h' a = (cells h a)\<lparr>ch := snd p\<rparr>))"
  using assms
proof (induction ps arbitrary: h)
  case Nil
  show ?case by simp
next
  case (Cons p ps)
  define hA where "hA = h\<lparr>cells := (cells h)(target filled p := (cells h (target filled p))\<lparr>ch := snd p\<rparr>)\<rparr>"
  have sc: "setCh h filled (fst p) (snd p) = Inr hA"
    using Cons.prems by (simp add: setCh_def hA_def target_def)
  have cA: "cells hA a = (if a = target filled p then (cells h a)\<lparr>ch := snd p\<rparr> else cells h a)" for a
    by (simp add: hA_def)
  have r: "\<forall>q\<in>set ps. fst (fst q) < length filled \<and> snd (fst q) < length (filled ! fst (fst q))"
    using Cons.prems by simp
  from Cons.IH [OF r, of hA] obtain h' where
    ih: "runWrites filled ps hA = Inr h'" "fresh h' = fresh hA"
      "\<And>a. (\<forall>q\<in>set ps. target filled q \<noteq> a) \<Longrightarrow> cells h' a = cells hA a"
      "\<And>a. (\<exists>q\<in>set ps. target filled q = a) \<Longrightarrow>
          (\<exists>q\<in>set ps. target filled q = a \<and> cells h' a = (cells hA a)\<lparr>ch := snd q\<rparr>)"
    by blast
  have 1: "runWrites filled (p # ps) h = Inr h'" using sc ih(1) by simp
  have 2: "fresh h' = fresh h" using ih(2) by (simp add: hA_def)
  have 3: "cells h' a = cells h a" if "\<forall>q\<in>set (p # ps). target filled q \<noteq> a" for a
  proof -
    from that have "\<forall>q\<in>set ps. target filled q \<noteq> a" "a \<noteq> target filled p" by auto
    with ih(3) [of a] cA [of a] show ?thesis by simp
  qed
  have 4: "\<exists>q\<in>set (p # ps). target filled q = a \<and> cells h' a = (cells h a)\<lparr>ch := snd q\<rparr>"
    if "\<exists>q\<in>set (p # ps). target filled q = a" for a
  proof (cases "\<exists>q\<in>set ps. target filled q = a")
    case True
    from ih(4) [OF True] obtain q where q: "q \<in> set ps" "target filled q = a"
      "cells h' a = (cells hA a)\<lparr>ch := snd q\<rparr>" by blast
    have "(cells hA a)\<lparr>ch := snd q\<rparr> = (cells h a)\<lparr>ch := snd q\<rparr>" by (simp add: cA)
    with q show ?thesis by (intro bexI [of _ q]) simp_all
  next
    case False
    with that have a: "target filled p = a" by auto
    from False have "cells h' a = cells hA a" using ih(3) [of a] by blast
    with a show ?thesis by (intro bexI [of _ p]) (simp_all add: cA)
  qed
  show ?case using 1 2 3 4 by blast
qed

lemma in_writes:
  "p \<in> set (writes m ss) \<longleftrightarrow>
     (\<exists>s\<in>set ss. \<exists>k<slen s. \<exists>w. m (sid s) = Some w \<and> w \<noteq> [] \<and> p = (cellOf s k, charAt w k))"
proof -
  have one: "p \<in> set (writesOf m s) \<longleftrightarrow>
      (\<exists>k<slen s. \<exists>w. m (sid s) = Some w \<and> w \<noteq> [] \<and> p = (cellOf s k, charAt w k))" for s
  proof (cases "m (sid s)")
    case None
    then show ?thesis by (simp add: writesOf_def)
  next
    case (Some w)
    show ?thesis
    proof (cases "w = []")
      case True
      with Some show ?thesis by (simp add: writesOf_def)
    next
      case False
      with Some show ?thesis by (auto simp: writesOf_def)
    qed
  qed
  have "p \<in> set (writes m ss) \<longleftrightarrow> (\<exists>s\<in>set ss. p \<in> set (writesOf m s))"
    by (auto simp: writes_def)
  then show ?thesis unfolding one .
qed

lemma openAt_view:
  "openAt (view h rg) rc \<longleftrightarrow>
     fst rc < length rg \<and> snd rc < length (rg ! fst rc) \<and> \<not> blocked (cells h (rg ! fst rc ! snd rc))"
  by (auto simp: openAt_def view_def)

text \<open>
  C10: the projection of \<^verbatim>\<open>onSolve\<close> works on new cell objects, one for each cell of
  the grid. Every cell object that existed before keeps its fields, so the grid given reads
  as before; the grid returned has the shape of the grid given and refers to new objects
  only; a blocked cell of it equals the cell given, as does every cell that no slot with a
  word covers; a cell that such a slot covers is the cell given with \<^verbatim>\<open>ch\<close> set to the
  character of the word of a slot that covers it, at its offset in that slot. This holds for any
  mapping, on a grid whose cell objects are allocated and on which \<^verbatim>\<open>computeSlots\<close>
  returns.
\<close>

theorem project_frame:
  assumes al: "allocated h rg" and cs: "computeSlots (view h rg) = Inr ss"
  shows "\<exists>h' filled. project h rg m = Inr (h', filled) \<and>
           (\<forall>a<fresh h. cells h' a = cells h a) \<and>
           view h' rg = view h rg \<and>
           map length filled = map length rg \<and>
           (\<forall>r<length rg. \<forall>c<length (rg ! r).
              fresh h \<le> filled ! r ! c \<and>
              projected ss m (r, c) (cells h (rg ! r ! c)) (cells h' (filled ! r ! c)))"
proof -
  from al have wf: "\<forall>row\<in>set rg. \<forall>a\<in>set row. a < fresh h"
    unfolding allocated_def list_all_iff .
  obtain h1 filled where cg: "copyGrid h rg = (h1, filled)" by (cases "copyGrid h rg")
  from copyGrid_spec [OF wf cg] have
    shape: "map length filled = map length rg" and
    keep: "\<And>a. a < fresh h \<Longrightarrow> cells h1 a = cells h a" and
    new: "\<And>r c. r < length rg \<Longrightarrow> c < length (rg ! r) \<Longrightarrow>
            fresh h \<le> filled ! r ! c \<and> cells h1 (filled ! r ! c) = cells h (rg ! r ! c)" and
    inj: "\<And>r c r' c'. r < length rg \<Longrightarrow> c < length (rg ! r) \<Longrightarrow> r' < length rg \<Longrightarrow>
            c' < length (rg ! r') \<Longrightarrow> filled ! r ! c = filled ! r' ! c' \<Longrightarrow> r = r' \<and> c = c'"
    by blast+
  from shape have len: "length filled = length rg" by (rule map_eq_imp_length_eq)
  have rowlen: "length (filled ! r) = length (rg ! r)" if "r < length rg" for r
  proof -
    have "map length filled ! r = map length rg ! r" using shape by simp
    with that len show ?thesis by simp
  qed
  from computeSlots_facts [OF cs] have
    op: "\<And>s k. s \<in> set ss \<Longrightarrow> k < slen s \<Longrightarrow> openAt (view h rg) (cellOf s k)"
    by blast
  have wr: "fst (fst p) < length rg \<and> snd (fst p) < length (rg ! fst (fst p)) \<and>
            \<not> blocked (cells h (rg ! fst (fst p) ! snd (fst p)))"
    if "p \<in> set (writes m ss)" for p
  proof -
    from that obtain s k where "s \<in> set ss" "k < slen s" "fst p = cellOf s k"
      unfolding in_writes by auto
    with op [of s k] show ?thesis by (simp add: openAt_view)
  qed
  have rng: "\<forall>p\<in>set (writes m ss).
      fst (fst p) < length filled \<and> snd (fst p) < length (filled ! fst (fst p))"
    using wr len rowlen by simp
  from runWrites_spec [OF rng, of h1] obtain h' where
    run: "runWrites filled (writes m ss) h1 = Inr h'" and
    miss: "\<And>a. (\<forall>p\<in>set (writes m ss). target filled p \<noteq> a) \<Longrightarrow> cells h' a = cells h1 a" and
    hit: "\<And>a. (\<exists>p\<in>set (writes m ss). target filled p = a) \<Longrightarrow>
           (\<exists>p\<in>set (writes m ss). target filled p = a \<and> cells h' a = (cells h1 a)\<lparr>ch := snd p\<rparr>)"
    by blast
  have pr: "project h rg m = Inr (h', filled)"
    by (simp add: project_def cs cg fillAll_run run)
  have tg: "fresh h \<le> target filled p" if "p \<in> set (writes m ss)" for p
    using wr [OF that] new [of "fst (fst p)" "snd (fst p)"] by (simp add: target_def)
  have old: "cells h' a = cells h a" if "a < fresh h" for a
  proof -
    have "\<forall>p\<in>set (writes m ss). target filled p \<noteq> a" using tg that by fastforce
    from miss [OF this] keep [OF that] show ?thesis by simp
  qed
  have cell: "projected ss m (r, c) (cells h (rg ! r ! c)) (cells h' (filled ! r ! c))"
    if r: "r < length rg" and c: "c < length (rg ! r)" for r c
  proof -
    let ?a = "filled ! r ! c"
    from new [OF r c] have h1a: "cells h1 ?a = cells h (rg ! r ! c)" by simp
    have at: "fst p = (r, c)" if "p \<in> set (writes m ss)" "target filled p = ?a" for p
    proof -
      from wr [OF that(1)] have "fst (fst p) < length rg" "snd (fst p) < length (rg ! fst (fst p))"
        by simp_all
      from inj [OF this r c] that(2) have "fst (fst p) = r \<and> snd (fst p) = c"
        by (simp add: target_def)
      then show ?thesis by (simp add: prod_eq_iff)
    qed
    show ?thesis
    proof (cases "\<exists>p\<in>set (writes m ss). target filled p = ?a")
      case True
      from hit [OF True] obtain p where p: "p \<in> set (writes m ss)" "target filled p = ?a"
        "cells h' ?a = (cells h1 ?a)\<lparr>ch := snd p\<rparr>" by blast
      from at [OF p(1,2)] have fp: "fst p = (r, c)" .
      from wr [OF p(1)] fp have nb: "\<not> blocked (cells h (rg ! r ! c))" by simp
      from p(1) obtain s k w where s: "s \<in> set ss" "k < slen s" "m (sid s) = Some w" "w \<noteq> []"
        "p = (cellOf s k, charAt w k)"
        unfolding in_writes by blast
      from s(5) fp have ck: "cellOf s k = (r, c)" by simp
      have w: "wrote m s k (cells h (rg ! r ! c)) (cells h' ?a)"
        using p(3) s(3,4,5) h1a by (simp add: wrote_def)
      have "truthy (m (sid s))" using s(3,4) by (simp add: truthy_def)
      then have cov: "covered ss m (r, c)"
        unfolding covered_def using s(1,2) ck by blast
      have bl: "blocked (cells h' ?a) = blocked (cells h (rg ! r ! c))"
        using p(3) h1a by simp
      show ?thesis
        unfolding projected_def using nb cov bl s(1,2) ck w by blast
    next
      case False
      then have "\<forall>p\<in>set (writes m ss). target filled p \<noteq> ?a" by blast
      from miss [OF this] h1a have same: "cells h' ?a = cells h (rg ! r ! c)" by simp
      have "\<not> covered ss m (r, c)"
      proof
        assume "covered ss m (r, c)"
        then obtain s k w where s: "s \<in> set ss" "k < slen s" "cellOf s k = (r, c)"
          "m (sid s) = Some w" "w \<noteq> []"
          unfolding covered_def truthy_def by (auto split: option.splits)
        then have "(cellOf s k, charAt w k) \<in> set (writes m ss)"
          unfolding in_writes by blast
        moreover have "target filled (cellOf s k, charAt w k) = ?a"
          using s(3) by (simp add: target_def)
        ultimately show False using False by blast
      qed
      with same show ?thesis by (simp add: projected_def)
    qed
  qed
  have vw: "view h' rg = view h rg"
    unfolding view_def using wf old by simp
  from pr old vw shape cell new show ?thesis by blast
qed

theorem project_frame_witness:
  "allocated testStore testRefs \<and>
   computeSlots (view testStore testRefs) = Inr [\<lparr>sid = 0, sr = 0, sc = 1, slen = 2, sdir = H\<rparr>] \<and>
   (\<exists>h' filled. project testStore testRefs [0 \<mapsto> ''AB''] = Inr (h', filled) \<and>
      view h' testRefs = [[blockedCell, openCell, openCell]] \<and>
      map length filled = [3] \<and>
      3 \<le> filled ! 0 ! 0 \<and> 3 \<le> filled ! 0 ! 1 \<and> 3 \<le> filled ! 0 ! 2 \<and>
      cells h' (filled ! 0 ! 0) = blockedCell \<and>
      cells h' (filled ! 0 ! 1) = openCell\<lparr>ch := Some ''A''\<rparr> \<and>
      cells h' (filled ! 0 ! 2) = openCell\<lparr>ch := Some ''B''\<rparr>)"
proof -
  let ?s = "\<lparr>sid = 0, sr = 0, sc = 1, slen = 2, sdir = H\<rparr>"
  let ?m = "[0 \<mapsto> ''AB'']"
  have al: "allocated testStore testRefs"
    by (simp add: allocated_def testStore_def testRefs_def)
  have cs: "computeSlots (view testStore testRefs) = Inr [?s]"
    by code_simp
  have vw: "view testStore testRefs = [[blockedCell, openCell, openCell]]"
    by (simp add: view_def testStore_def testRefs_def)
  from project_frame [OF al cs, of ?m] obtain h' filled where
    pr: "project testStore testRefs ?m = Inr (h', filled)" and
    same: "view h' testRefs = view testStore testRefs" and
    shape: "map length filled = map length testRefs" and
    cell: "\<And>r c. r < length testRefs \<Longrightarrow> c < length (testRefs ! r) \<Longrightarrow>
       fresh testStore \<le> filled ! r ! c \<and>
       projected [?s] ?m (r, c) (cells testStore (testRefs ! r ! c)) (cells h' (filled ! r ! c))"
    by blast
  from cell [of 0 0] have c0: "3 \<le> filled ! 0 ! 0" "cells h' (filled ! 0 ! 0) = blockedCell"
    by (simp_all add: testStore_def testRefs_def projected_def blockedCell_def)
  have cov1: "covered [?s] ?m (0, 1)"
    by (simp add: covered_def cellOf_def truthy_def)
  have cov2: "covered [?s] ?m (0, 2)"
    by (simp add: covered_def cellOf_def truthy_def)
  from cell [of 0 1] cov1 have c1: "3 \<le> filled ! 0 ! 1"
    "cells h' (filled ! 0 ! 1) = openCell\<lparr>ch := Some ''A''\<rparr>"
    by (simp_all add: testStore_def testRefs_def projected_def cellOf_def wrote_def charAt_def)
  from cell [of 0 2] cov2 have c2: "3 \<le> filled ! 0 ! 2"
    "cells h' (filled ! 0 ! 2) = openCell\<lparr>ch := Some ''B''\<rparr>"
    by (simp_all add: testStore_def testRefs_def projected_def cellOf_def wrote_def charAt_def)
  from shape have sh: "map length filled = [3]" by (simp add: testRefs_def)
  from al cs pr same vw sh c0 c1 c2 show ?thesis by simp
qed

end
